theory Spec2Isabelle
  imports Main "HOL-Library.Monad_Syntax"
begin

section \<open>Data model (game.go, card.go)\<close>

text \<open>
  The engine is the Go struct \<open>Casino\<close>; every method mutates it in place while holding
  its mutex, so each method is modelled as a function from the state before the call to
  the state after it. A Go run-time panic (index out of range, slice bounds out of range,
  a method called through a nil \<open>*Card\<close>) ends the program: the model returns \<open>None\<close>
  there and \<open>Some\<close> of the result when the call returns.

  Go's \<open>int\<close> is 64 bits wide. Every counter of the engine is a card count, an index
  below 53 or a score that a play raises by at most three points for each card of the
  pile or by 20, so no value comes near the limits of the type; the counters are
  modelled as \<open>int\<close>.
\<close>

datatype GameState =
  StateNotStarted | StatePlayerTurn | StateCPUTurn | StateGameOver | StatePileCaptured

datatype PlayerID = NoPlayer | Player | CPU

datatype GameLevel = LevelNotSelected | LevelBeginner | LevelIntermediate | LevelAdvanced

definition DeckSize :: int where
  "DeckSize = 52"

definition HandSize :: int where
  "HandSize = 4"

record Card =
  face :: string
  suit :: string
  iconPath :: string

text \<open>
  A \<open>*Card\<close> is a \<open>Card option\<close>: \<open>None\<close> is the nil pointer. Cards are never
  mutated after \<open>NewCard\<close> and pointers are only ever compared with nil, so the card's
  value stands for the pointer.
\<close>

definition NewCard :: "string \<Rightarrow> string \<Rightarrow> string \<Rightarrow> Card option" where
  "NewCard cardFace cardSuit icon = Some \<lparr>face = cardFace, suit = cardSuit, iconPath = icon\<rparr>"

definition GetFace :: "Card option \<Rightarrow> string option" where
  "GetFace p = map_option face p"

definition GetSuit :: "Card option \<Rightarrow> string option" where
  "GetSuit p = map_option suit p"

text \<open>Indexing a slice, \<open>xs[i]\<close> and \<open>xs[i] = v\<close>: out of range panics.\<close>

definition nth_slot :: "'a list \<Rightarrow> int \<Rightarrow> 'a option" where
  "nth_slot xs i = (if 0 \<le> i \<and> i < int (length xs) then Some (xs ! nat i) else None)"

definition set_slot :: "'a list \<Rightarrow> int \<Rightarrow> 'a \<Rightarrow> 'a list option" where
  "set_slot xs i v = (if 0 \<le> i \<and> i < int (length xs) then Some (xs[nat i := v]) else None)"

text \<open>
  \<open>make([]*Card, n)\<close> followed by \<open>copy(dst, xs[:n])\<close>: a negative length and a bound
  beyond the slice both panic. The bound of \<open>xs[:n]\<close> is the capacity of \<open>xs\<close>; every
  slice of the engine comes from \<open>make\<close> with a single size and is never resliced or
  appended to, so its capacity is its length.
\<close>

definition slice_copy :: "'a list \<Rightarrow> int \<Rightarrow> 'a list option" where
  "slice_copy xs n = (if 0 \<le> n \<and> n \<le> int (length xs) then Some (take (nat n) xs) else None)"

text \<open>\<open>copy(dst, src)\<close> overwrites the first \<open>min(len(dst), len(src))\<close> elements of \<open>dst\<close>.\<close>

definition copy_into :: "'a list \<Rightarrow> 'a list \<Rightarrow> 'a list" where
  "copy_into dst src = take (length dst) src @ drop (length src) dst"

record UndoState =
  us_playerPoint :: int
  us_cpuPoint :: int
  us_lastScorer :: PlayerID
  us_cardsCollectedByPlayer :: int
  us_cardsCollectedByCPU :: int
  us_cardsOnTable :: int
  us_tableCards :: "Card option list"
  us_playerCards :: "Card option list"
  us_initialHiddenCards :: "Card option list option"
  us_safeDiscardCandidate :: "Card option"
  us_isInitialPile :: bool
  us_cpuCards :: "Card option list"
  us_currentHandMemory :: "Card option list"
  us_currentHandMemoryLength :: int

text \<open>
  The fields of \<open>Casino\<close>, in the order of the struct. \<open>initialHiddenCards\<close> is a slice
  that the code compares with nil, so it is an optional list. The mutex is left out: each
  method holds it from entry to return, which is what one function application is. The
  random source \<open>rng\<close> is the sequence of raw values it will produce together with the
  number of values drawn so far (\<open>rngPos\<close>).
\<close>

record Casino =
  cpuCards :: "Card option list"
  allPlayedCardsMemory :: "Card option list"
  currentHandMemory :: "Card option list"
  deck :: "Card option list"
  playerCards :: "Card option list"
  tableCards :: "Card option list"
  faces :: "string list"
  suits :: "string list"
  cardsCollectedByPlayer :: int
  cardsCollectedByCPU :: int
  cardsOnTable :: int
  currentHandMemoryLength :: int
  allPlayedCardsMemoryLength :: int
  cpuPoint :: int
  currentCard :: int
  gameState :: GameState
  initialHiddenCards :: "Card option list option"
  safeDiscardCandidate :: "Card option"
  initialPileCaptureMsg :: string
  lastPlayedCPUCardIdx :: int
  lastPlayedPlayerCard :: int
  lastScorer :: PlayerID
  level :: GameLevel
  playerPoint :: int
  canUndo :: bool
  isInitialPile :: bool
  undoState :: UndoState
  rng :: "nat \<Rightarrow> nat"
  rngPos :: nat

text \<open>The zero value of \<open>UndoState\<close>, which \<open>NewCasino\<close> leaves in the struct.\<close>

definition zeroUndoState :: UndoState where
  "zeroUndoState =
     \<lparr>us_playerPoint = 0, us_cpuPoint = 0, us_lastScorer = NoPlayer,
      us_cardsCollectedByPlayer = 0, us_cardsCollectedByCPU = 0, us_cardsOnTable = 0,
      us_tableCards = [], us_playerCards = [], us_initialHiddenCards = None,
      us_safeDiscardCandidate = None, us_isInitialPile = False, us_cpuCards = [],
      us_currentHandMemory = [], us_currentHandMemoryLength = 0\<rparr>"

text \<open>
  \<open>c.rng.Intn(n)\<close> returns a value in \<open>0..n-1\<close> and advances the source; it is called
  with a positive \<open>n\<close> only. The model takes the next value of the sequence \<open>rng c\<close>,
  reduced to the range: the values the Go generator returns in a run, taken as that
  sequence, reproduce the run.
\<close>

definition Intn :: "nat \<Rightarrow> Casino \<Rightarrow> nat \<times> Casino" where
  "Intn n c = (rng c (rngPos c) mod n, c\<lparr>rngPos := Suc (rngPos c)\<rparr>)"

text \<open>
  A counting loop \<open>for i := lo; i < n; i++ { body }\<close> whose bound is not changed by the
  body; the body may panic.
\<close>

function for_loop :: "int \<Rightarrow> int \<Rightarrow> (int \<Rightarrow> 's \<Rightarrow> 's option) \<Rightarrow> 's \<Rightarrow> 's option" where
  "for_loop i n body s =
     (if i < n then (case body i s of None \<Rightarrow> None | Some s' \<Rightarrow> for_loop (i + 1) n body s')
      else Some s)"
  by pat_completeness auto
termination
  by (relation "measure (\<lambda>(i, n, body, s). nat (n - i))") auto

declare for_loop.simps [simp del]

section \<open>Scoring (pointCalculator, getCardValue)\<close>

text \<open>
  The loop of \<open>pointCalculator\<close> over \<open>i = 0 .. cardsOnTable - 1\<close> with the running
  \<open>point\<close>; \<open>card.GetFace()\<close> panics on a nil slot.
\<close>

function pointCalculator_loop :: "Card option list \<Rightarrow> int \<Rightarrow> int \<Rightarrow> int \<Rightarrow> int option" where
  "pointCalculator_loop tc n i point =
     (if i < n then
        (case nth_slot tc i of
           None \<Rightarrow> None
         | Some None \<Rightarrow> None
         | Some (Some crd) \<Rightarrow>
             pointCalculator_loop tc n (i + 1)
               (if face crd = ''Jack'' then point + 1
                else if face crd = ''Ace'' then point + 1
                else if face crd = ''Deuce'' then
                  (if suit crd = ''Clubs'' then point + 2 else point)
                else if face crd = ''Ten'' then
                  (if suit crd = ''Diamonds'' then point + 3 else point)
                else point))
      else Some point)"
  by pat_completeness auto
termination
  by (relation "measure (\<lambda>(tc, n, i, point). nat (n - i))") auto

declare pointCalculator_loop.simps [simp del]

definition pointCalculator :: "Casino \<Rightarrow> int option" where
  "pointCalculator c = pointCalculator_loop (tableCards c) (cardsOnTable c) 0 0"

definition getCardValue :: "Card option \<Rightarrow> int" where
  "getCardValue p =
     (case p of
        None \<Rightarrow> 0
      | Some crd \<Rightarrow>
          (if face crd = ''Jack'' \<or> face crd = ''Ace'' then 1
           else if face crd = ''Deuce'' then (if suit crd = ''Clubs'' then 2 else 0)
           else if face crd = ''Ten'' then (if suit crd = ''Diamonds'' then 3 else 0)
           else 0))"

section \<open>Turn processing (processTurn, finalizeCapture)\<close>

text \<open>
  \<open>processTurn\<close>. The sound effects (\<open>PlaySound\<close>) are fire-and-forget calls into the
  audio layer and are left out. The message built by \<open>fmt.Sprintf\<close> is the concatenation
  of its pieces.
\<close>

definition rememberPlayed :: "Card option \<Rightarrow> Casino \<Rightarrow> Casino option" where
  "rememberPlayed playedCard c =
     (case level c of
        LevelIntermediate \<Rightarrow>
          (if currentHandMemoryLength c < int (length (currentHandMemory c)) then do {
             m \<leftarrow> set_slot (currentHandMemory c) (currentHandMemoryLength c) playedCard;
             Some (c\<lparr>currentHandMemory := m,
                      currentHandMemoryLength := currentHandMemoryLength c + 1\<rparr>)
           } else Some c)
      | LevelAdvanced \<Rightarrow>
          (if allPlayedCardsMemoryLength c < int (length (allPlayedCardsMemory c)) then do {
             m \<leftarrow> set_slot (allPlayedCardsMemory c) (allPlayedCardsMemoryLength c) playedCard;
             Some (c\<lparr>allPlayedCardsMemory := m,
                      allPlayedCardsMemoryLength := allPlayedCardsMemoryLength c + 1\<rparr>)
           } else Some c)
      | _ \<Rightarrow> Some c)"

definition hiddenCardsMsg :: "Card option list \<Rightarrow> string option" where
  "hiddenCardsMsg h = do {
     h0 \<leftarrow> nth_slot h 0; f0 \<leftarrow> GetFace h0;
     h1 \<leftarrow> nth_slot h 1; f1 \<leftarrow> GetFace h1;
     h2 \<leftarrow> nth_slot h 2; f2 \<leftarrow> GetFace h2;
     Some (''You captured the hidden cards: '' @ f0 @ '', '' @ f1 @ '', and '' @ f2 @ ''!'')
   }"

definition captureAward :: "string \<Rightarrow> string \<Rightarrow> Casino \<Rightarrow> (int \<times> int) option" where
  "captureAward topFace secondFace c =
     (if cardsOnTable c = 2 \<and> topFace = secondFace then
        Some (if topFace = ''Jack'' then 20 else 10, 2)
      else do {
        points \<leftarrow> pointCalculator c;
        Some (points, cardsOnTable c)
      })"

definition capturePile ::
  "PlayerID \<Rightarrow> Card option \<Rightarrow> string \<Rightarrow> string \<Rightarrow> Casino \<Rightarrow> Casino option" where
  "capturePile playerID secondToTopCard topFace secondFace c = do {
     let c1 = (if playerID = Player \<and> topFace = ''Jack''
               then c\<lparr>safeDiscardCandidate := secondToTopCard\<rparr> else c);
     c2 \<leftarrow> (case initialHiddenCards c1 of
              None \<Rightarrow> Some c1
            | Some h \<Rightarrow> do {
                c' \<leftarrow> (if playerID = Player then do {
                         msg \<leftarrow> hiddenCardsMsg h;
                         Some (c1\<lparr>initialPileCaptureMsg := msg\<rparr>)
                       } else Some c1);
                Some (c'\<lparr>initialHiddenCards := None\<rparr>)
              });
     (points, cardsCollected) \<leftarrow> captureAward topFace secondFace c2;
     let c3 = (if playerID = Player
               then c2\<lparr>playerPoint := playerPoint c2 + points,
                       cardsCollectedByPlayer := cardsCollectedByPlayer c2 + cardsCollected\<rparr>
               else c2\<lparr>cpuPoint := cpuPoint c2 + points,
                       cardsCollectedByCPU := cardsCollectedByCPU c2 + cardsCollected\<rparr>);
     Some (c3\<lparr>gameState := StatePileCaptured, lastScorer := playerID\<rparr>)
   }"

definition passTurn :: "PlayerID \<Rightarrow> Casino \<Rightarrow> Casino" where
  "passTurn playerID c =
     (if playerID = Player then c\<lparr>gameState := StateCPUTurn\<rparr>
      else c\<lparr>gameState := StatePlayerTurn\<rparr>)"

definition processTurn :: "Card option \<Rightarrow> PlayerID \<Rightarrow> Casino \<Rightarrow> Casino option" where
  "processTurn playedCard playerID c =
     (case playedCard of
        None \<Rightarrow> Some c
      | Some _ \<Rightarrow> do {
          c1 \<leftarrow> rememberPlayed playedCard c;
          tc \<leftarrow> set_slot (tableCards c1) (cardsOnTable c1) playedCard;
          let c2 = c1\<lparr>tableCards := tc, cardsOnTable := cardsOnTable c1 + 1\<rparr>;
          if cardsOnTable c2 > 1 then do {
            topCardOnTable \<leftarrow> nth_slot (tableCards c2) (cardsOnTable c2 - 1);
            secondToTopCard \<leftarrow> nth_slot (tableCards c2) (cardsOnTable c2 - 2);
            topFace \<leftarrow> GetFace topCardOnTable;
            secondFace \<leftarrow> GetFace secondToTopCard;
            if topFace = secondFace \<or> topFace = ''Jack''
            then capturePile playerID secondToTopCard topFace secondFace c2
            else Some (passTurn playerID c2)
          } else Some (passTurn playerID c2)
        })"

definition finalizeCapture :: "Casino \<Rightarrow> Casino" where
  "finalizeCapture c =
     (let c1 = c\<lparr>cardsOnTable := 0\<rparr>
      in if gameState c1 \<noteq> StateGameOver then c1\<lparr>gameState := StatePlayerTurn\<rparr> else c1)"

section \<open>Construction, shuffle and deal (NewCasino, shuffle, deal)\<close>

text \<open>\<open>strconv.Itoa\<close>: the decimal numeral of an integer.\<close>

definition digitChar :: "nat \<Rightarrow> char" where
  "digitChar d = ''0123456789'' ! d"

function Itoa_nat :: "nat \<Rightarrow> string" where
  "Itoa_nat n = (if n < 10 then [digitChar n] else Itoa_nat (n div 10) @ [digitChar (n mod 10)])"
  by pat_completeness auto
termination
  by (relation "measure (\<lambda>n. n)") auto

declare Itoa_nat.simps [simp del]

definition Itoa :: "int \<Rightarrow> string" where
  "Itoa i = (if i < 0 then CHR ''-'' # Itoa_nat (nat (- i)) else Itoa_nat (nat i))"

definition faceNames :: "string list" where
  "faceNames = [''Ace'', ''Deuce'', ''Three'', ''Four'', ''Five'', ''Six'', ''Seven'',
                ''Eight'', ''Nine'', ''Ten'', ''Jack'', ''Queen'', ''King'']"

definition suitNames :: "string list" where
  "suitNames = [''Hearts'', ''Diamonds'', ''Clubs'', ''Spades'']"

text \<open>
  \<open>NewCasino\<close>, given the sequence the freshly seeded random source will produce. Its
  indices \<open>i%13\<close> and \<open>i/13\<close> for \<open>i < 52\<close> are within the two name tables.
\<close>

definition NewCasino :: "(nat \<Rightarrow> nat) \<Rightarrow> Casino" where
  "NewCasino r =
     \<lparr>cpuCards = replicate (nat HandSize) None,
      allPlayedCardsMemory = replicate (nat DeckSize) None,
      currentHandMemory = replicate (nat DeckSize) None,
      deck = map (\<lambda>i. NewCard (faceNames ! (i mod 13)) (suitNames ! (i div 13))
                         (Itoa (int i + 1))) [0..<nat DeckSize],
      playerCards = replicate (nat HandSize) None,
      tableCards = replicate (nat DeckSize) None,
      faces = faceNames,
      suits = suitNames,
      cardsCollectedByPlayer = 0,
      cardsCollectedByCPU = 0,
      cardsOnTable = 0,
      currentHandMemoryLength = 0,
      allPlayedCardsMemoryLength = 0,
      cpuPoint = 0,
      currentCard = 0,
      gameState = StateNotStarted,
      initialHiddenCards = None,
      safeDiscardCandidate = None,
      initialPileCaptureMsg = [],
      lastPlayedCPUCardIdx = 0,
      lastPlayedPlayerCard = 0,
      lastScorer = NoPlayer,
      level = LevelNotSelected,
      playerPoint = 0,
      canUndo = False,
      isInitialPile = False,
      undoState = zeroUndoState,
      rng = r,
      rngPos = 0\<rparr>"

text \<open>
  \<open>shuffle\<close>: the tuple assignment reads both elements before it writes either.
\<close>

definition shuffle_step :: "int \<Rightarrow> Casino \<Rightarrow> Casino option" where
  "shuffle_step i c =
     (let (swapped, c1) = Intn (nat DeckSize) c in do {
        a \<leftarrow> nth_slot (deck c1) (int swapped);
        b \<leftarrow> nth_slot (deck c1) i;
        d1 \<leftarrow> set_slot (deck c1) i a;
        d2 \<leftarrow> set_slot d1 (int swapped) b;
        Some (c1\<lparr>deck := d2\<rparr>)
      })"

definition shuffle :: "Casino \<Rightarrow> Casino option" where
  "shuffle c = for_loop 0 DeckSize shuffle_step c"

definition clearHandMemory_step :: "int \<Rightarrow> Casino \<Rightarrow> Casino option" where
  "clearHandMemory_step i c = do {
     m \<leftarrow> set_slot (currentHandMemory c) i None;
     Some (c\<lparr>currentHandMemory := m\<rparr>)
   }"

definition dealPlayer_step :: "int \<Rightarrow> Casino \<Rightarrow> Casino option" where
  "dealPlayer_step i c = do {
     d \<leftarrow> nth_slot (deck c) (currentCard c);
     pc \<leftarrow> set_slot (playerCards c) i d;
     Some (c\<lparr>playerCards := pc, currentCard := currentCard c + 1\<rparr>)
   }"

definition dealCPU_step :: "int \<Rightarrow> Casino \<Rightarrow> Casino option" where
  "dealCPU_step i c = do {
     d \<leftarrow> nth_slot (deck c) (currentCard c);
     cc \<leftarrow> set_slot (cpuCards c) i d;
     Some (c\<lparr>cpuCards := cc, currentCard := currentCard c + 1\<rparr>)
   }"

definition deal :: "Casino \<Rightarrow> Casino option" where
  "deal c =
     (if currentCard c \<ge> DeckSize then Some c
      else do {
        c1 \<leftarrow> (if \<not> isInitialPile c then do {
                 c' \<leftarrow> for_loop 0 (currentHandMemoryLength c) clearHandMemory_step
                         (c\<lparr>safeDiscardCandidate := None\<rparr>);
                 Some (c'\<lparr>currentHandMemoryLength := 0\<rparr>)
               } else Some c);
        c2 \<leftarrow> for_loop 0 HandSize dealPlayer_step c1;
        for_loop 0 HandSize dealCPU_step c2
      })"

section \<open>Starting and resetting (StartGame, resetGameInternal, SetLevel)\<close>

definition resetHands_step :: "int \<Rightarrow> Casino \<Rightarrow> Casino option" where
  "resetHands_step i c = do {
     pc \<leftarrow> set_slot (playerCards c) i None;
     cc \<leftarrow> set_slot (cpuCards c) i None;
     Some (c\<lparr>playerCards := pc, cpuCards := cc\<rparr>)
   }"

definition resetPiles_step :: "int \<Rightarrow> Casino \<Rightarrow> Casino option" where
  "resetPiles_step i c = do {
     tc \<leftarrow> set_slot (tableCards c) i None;
     hm \<leftarrow> set_slot (currentHandMemory c) i None;
     am \<leftarrow> set_slot (allPlayedCardsMemory c) i None;
     Some (c\<lparr>tableCards := tc, currentHandMemory := hm, allPlayedCardsMemory := am\<rparr>)
   }"

definition clearAllPlayed_step :: "int \<Rightarrow> Casino \<Rightarrow> Casino option" where
  "clearAllPlayed_step i c = do {
     am \<leftarrow> set_slot (allPlayedCardsMemory c) i None;
     Some (c\<lparr>allPlayedCardsMemory := am\<rparr>)
   }"

definition resetGameInternal :: "Casino \<Rightarrow> Casino option" where
  "resetGameInternal c = do {
     let c1 = c\<lparr>gameState := StateNotStarted,
                level := LevelNotSelected,
                cardsCollectedByPlayer := 0,
                cardsCollectedByCPU := 0,
                cardsOnTable := 0,
                currentHandMemoryLength := 0,
                allPlayedCardsMemoryLength := 0\<rparr>;
     c2 \<leftarrow> for_loop 0 (int (length (allPlayedCardsMemory c1))) clearAllPlayed_step c1;
     let c3 = c2\<lparr>cpuPoint := 0,
                 playerPoint := 0,
                 lastPlayedCPUCardIdx := - 1,
                 lastPlayedPlayerCard := - 1,
                 lastScorer := NoPlayer,
                 isInitialPile := False,
                 canUndo := False,
                 currentCard := 0,
                 safeDiscardCandidate := None,
                 initialHiddenCards := None,
                 initialPileCaptureMsg := []\<rparr>;
     c4 \<leftarrow> for_loop 0 HandSize resetHands_step c3;
     for_loop 0 DeckSize resetPiles_step c4
   }"

definition ResetGame :: "Casino \<Rightarrow> Casino option" where
  "ResetGame c = resetGameInternal c"

definition dealTable_step :: "int \<Rightarrow> Casino \<Rightarrow> Casino option" where
  "dealTable_step i c = do {
     d \<leftarrow> nth_slot (deck c) i;
     tc \<leftarrow> set_slot (tableCards c) i d;
     Some (c\<lparr>tableCards := tc\<rparr>)
   }"

text \<open>\<open>StartGame\<close> returns its boolean result together with the state it leaves.\<close>

definition StartGame :: "Casino \<Rightarrow> (bool \<times> Casino) option" where
  "StartGame c = do {
     c0 \<leftarrow> (if gameState c \<noteq> StateNotStarted then resetGameInternal c else Some c);
     if level c0 = LevelNotSelected then Some (False, c0)
     else do {
       c1 \<leftarrow> shuffle (c0\<lparr>currentCard := 0\<rparr>);
       let c2 = c1\<lparr>playerPoint := 0,
                   cpuPoint := 0,
                   cardsCollectedByPlayer := 0,
                   safeDiscardCandidate := None,
                   initialHiddenCards := None,
                   cardsCollectedByCPU := 0,
                   cardsOnTable := HandSize,
                   currentHandMemoryLength := 0,
                   allPlayedCardsMemoryLength := 0,
                   gameState := StatePlayerTurn,
                   isInitialPile := True,
                   lastPlayedCPUCardIdx := - 1,
                   lastPlayedPlayerCard := - 1\<rparr>;
       c3 \<leftarrow> for_loop 0 HandSize dealTable_step c2;
       c4 \<leftarrow> (if length (tableCards c3) \<ge> 3 then do {
                t0 \<leftarrow> nth_slot (tableCards c3) 0;
                t1 \<leftarrow> nth_slot (tableCards c3) 1;
                t2 \<leftarrow> nth_slot (tableCards c3) 2;
                Some (c3\<lparr>initialHiddenCards := Some [t0, t1, t2]\<rparr>)
              } else Some c3);
       c5 \<leftarrow> deal (c4\<lparr>currentCard := HandSize\<rparr>);
       Some (True, c5)
     }
   }"

text \<open>
  \<open>SetLevel\<close> receives a \<open>GameLevel\<close>, which is an integer type in Go: a value outside
  the four constants is rejected with a printed message and no change.
\<close>

definition GameLevel_of :: "int \<Rightarrow> GameLevel" where
  "GameLevel_of l =
     (if l = 0 then LevelNotSelected else if l = 1 then LevelBeginner
      else if l = 2 then LevelIntermediate else LevelAdvanced)"

definition SetLevel :: "int \<Rightarrow> Casino \<Rightarrow> Casino" where
  "SetLevel l c = (if 0 \<le> l \<and> l \<le> 3 then c\<lparr>level := GameLevel_of l\<rparr> else c)"

section \<open>The human move (playerPlays)\<close>

text \<open>
  The snapshot for undo is taken first, at every level but Advanced, and the slot is
  inspected only afterwards. \<open>make([]*Card, HandSize)\<close> then \<open>copy\<close> gives a four-slot
  copy of the hand.
\<close>

definition saveUndoState :: "Casino \<Rightarrow> Casino option" where
  "saveUndoState c = do {
     undoTableCards \<leftarrow> slice_copy (tableCards c) (cardsOnTable c);
     let undoPlayerCards = copy_into (replicate (nat HandSize) None) (playerCards c);
     let undoCPUCards = copy_into (replicate (nat HandSize) None) (cpuCards c);
     undoHandMemory \<leftarrow> slice_copy (currentHandMemory c) (currentHandMemoryLength c);
     Some (c\<lparr>undoState :=
       \<lparr>us_playerPoint = playerPoint c, us_cpuPoint = cpuPoint c,
        us_lastScorer = lastScorer c,
        us_cardsCollectedByPlayer = cardsCollectedByPlayer c,
        us_cardsCollectedByCPU = cardsCollectedByCPU c,
        us_cardsOnTable = cardsOnTable c, us_tableCards = undoTableCards,
        us_playerCards = undoPlayerCards,
        us_initialHiddenCards = initialHiddenCards c,
        us_safeDiscardCandidate = safeDiscardCandidate c,
        us_isInitialPile = isInitialPile c,
        us_cpuCards = undoCPUCards,
        us_currentHandMemory = undoHandMemory,
        us_currentHandMemoryLength = currentHandMemoryLength c\<rparr>\<rparr>)
   }"

definition playerPlays :: "int \<Rightarrow> Casino \<Rightarrow> Casino option" where
  "playerPlays playedCardIdx c = do {
     c1 \<leftarrow> (if level c \<noteq> LevelAdvanced then saveUndoState c else Some c);
     playerPlayedCard \<leftarrow> nth_slot (playerCards c1) playedCardIdx;
     (case playerPlayedCard of
        None \<Rightarrow> Some c1
      | Some _ \<Rightarrow> do {
          pc \<leftarrow> set_slot (playerCards c1) playedCardIdx None;
          c2 \<leftarrow> processTurn playerPlayedCard Player
                 (c1\<lparr>lastPlayedPlayerCard := playedCardIdx, playerCards := pc\<rparr>);
          Some (if isInitialPile c2 then c2\<lparr>isInitialPile := False\<rparr> else c2)
        })
   }"

section \<open>The computer's choice (CPUaction and its helpers)\<close>

text \<open>A \<open>range\<close> loop over the hand is a recursion over the list with the running index.\<close>

primrec findMatchingCard_range :: "string \<Rightarrow> Card option list \<Rightarrow> int \<Rightarrow> int" where
  "findMatchingCard_range f [] i = - 1"
| "findMatchingCard_range f (p # ps) i =
     (case p of
        Some crd \<Rightarrow> if face crd = f then i else findMatchingCard_range f ps (i + 1)
      | None \<Rightarrow> findMatchingCard_range f ps (i + 1))"

definition findMatchingCard :: "string \<Rightarrow> Casino \<Rightarrow> int" where
  "findMatchingCard f c = findMatchingCard_range f (cpuCards c) 0"

primrec findJack_range :: "Card option list \<Rightarrow> int \<Rightarrow> int" where
  "findJack_range [] i = - 1"
| "findJack_range (p # ps) i =
     (case p of
        Some crd \<Rightarrow> if face crd = ''Jack'' then i else findJack_range ps (i + 1)
      | None \<Rightarrow> findJack_range ps (i + 1))"

definition findJack :: "Casino \<Rightarrow> int" where
  "findJack c = findJack_range (cpuCards c) 0"

definition collectNonJack_step :: "Casino \<Rightarrow> int \<Rightarrow> int list \<Rightarrow> int list option" where
  "collectNonJack_step c i cardsToPlay = do {
     p \<leftarrow> nth_slot (cpuCards c) i;
     Some (case p of
             Some crd \<Rightarrow> if face crd \<noteq> ''Jack'' then cardsToPlay @ [i] else cardsToPlay
           | None \<Rightarrow> cardsToPlay)
   }"

definition findRandomNonJack :: "Casino \<Rightarrow> (int \<times> Casino) option" where
  "findRandomNonJack c = do {
     cardsToPlay \<leftarrow> for_loop 0 HandSize (collectNonJack_step c) [];
     if length cardsToPlay > 0
     then (let (k, c') = Intn (length cardsToPlay) c in Some (cardsToPlay ! k, c'))
     else Some (- 1, c)
   }"

definition tryCaptureMove :: "Casino \<Rightarrow> int option" where
  "tryCaptureMove c =
     (if cardsOnTable c > 0 then do {
        top \<leftarrow> nth_slot (tableCards c) (cardsOnTable c - 1);
        topCardFace \<leftarrow> GetFace top;
        let cardIdx = findMatchingCard topCardFace c;
        if cardIdx \<noteq> - 1 then Some cardIdx
        else (let jackIdx = findJack c in if jackIdx \<noteq> - 1 then Some jackIdx else Some (- 1))
      } else Some (- 1))"

definition trySafeDiscard :: "Casino \<Rightarrow> int" where
  "trySafeDiscard c =
     (case safeDiscardCandidate c of
        Some crd \<Rightarrow>
          (let cardIdx = findMatchingCard (face crd) c in if cardIdx \<noteq> - 1 then cardIdx else - 1)
      | None \<Rightarrow> - 1)"

definition cpuActionBeginner :: "Casino \<Rightarrow> int option" where
  "cpuActionBeginner c = do {
     cardIdx \<leftarrow> tryCaptureMove c;
     if cardIdx \<noteq> - 1 then Some cardIdx else Some (- 1)
   }"

text \<open>
  The Go map \<open>faceCounts\<close> answers 0 for a face it does not hold, so it is a total
  function from faces to counts.
\<close>

definition countFace :: "(string \<Rightarrow> int) \<Rightarrow> Card option \<Rightarrow> (string \<Rightarrow> int)" where
  "countFace faceCounts p =
     (case p of
        Some crd \<Rightarrow>
          if face crd \<noteq> ''Jack'' then faceCounts(face crd := faceCounts (face crd) + 1)
          else faceCounts
      | None \<Rightarrow> faceCounts)"

definition countMemory_step ::
  "Casino \<Rightarrow> int \<Rightarrow> (string \<Rightarrow> int) \<Rightarrow> (string \<Rightarrow> int) option" where
  "countMemory_step c i faceCounts = do {
     p \<leftarrow> nth_slot (currentHandMemory c) i;
     Some (countFace faceCounts p)
   }"

definition mostCommon_step ::
  "(string \<Rightarrow> int) \<Rightarrow> string \<times> int \<Rightarrow> Card option \<Rightarrow> string \<times> int" where
  "mostCommon_step faceCounts acc p =
     (case p of
        Some crd \<Rightarrow>
          if faceCounts (face crd) > snd acc then (face crd, faceCounts (face crd)) else acc
      | None \<Rightarrow> acc)"

definition cpuActionIntermediate :: "Casino \<Rightarrow> int option" where
  "cpuActionIntermediate c = do {
     cardIdx \<leftarrow> tryCaptureMove c;
     if cardIdx \<noteq> - 1 then Some cardIdx
     else (let safeIdx = trySafeDiscard c in
       if safeIdx \<noteq> - 1 then Some safeIdx
       else do {
         let handCounts = foldl countFace (\<lambda>_. 0) (cpuCards c);
         faceCounts \<leftarrow> for_loop 0 (currentHandMemoryLength c) (countMemory_step c) handCounts;
         let (mostCommonFace, maxCount) = foldl (mostCommon_step faceCounts) ([], 1) (cpuCards c);
         if mostCommonFace \<noteq> [] then Some (findMatchingCard mostCommonFace c) else Some (- 1)
       })
   }"

definition matchMemory_step :: "Casino \<Rightarrow> Card \<Rightarrow> int \<Rightarrow> int \<Rightarrow> int option" where
  "matchMemory_step c held j matchNumber = do {
     p \<leftarrow> nth_slot (allPlayedCardsMemory c) j;
     Some (case p of
             Some crd \<Rightarrow> if face crd = face held then matchNumber + 1 else matchNumber
           | None \<Rightarrow> matchNumber)
   }"

definition matchHand_step :: "Casino \<Rightarrow> int \<Rightarrow> Card \<Rightarrow> int \<Rightarrow> int \<Rightarrow> int option" where
  "matchHand_step c i held j matchNumber =
     (if i = j then Some matchNumber
      else do {
        p \<leftarrow> nth_slot (cpuCards c) j;
        Some (case p of
                Some crd \<Rightarrow> if face crd = face held then matchNumber + 1 else matchNumber
              | None \<Rightarrow> matchNumber)
      })"

definition bestMatch_step :: "Casino \<Rightarrow> int \<Rightarrow> int \<times> int \<Rightarrow> (int \<times> int) option" where
  "bestMatch_step c i acc = do {
     p \<leftarrow> nth_slot (cpuCards c) i;
     (case p of
        Some held \<Rightarrow>
          if face held \<noteq> ''Jack'' then do {
            m1 \<leftarrow> for_loop 0 (allPlayedCardsMemoryLength c) (matchMemory_step c held) 0;
            matchNumber \<leftarrow> for_loop 0 HandSize (matchHand_step c i held) m1;
            Some (if matchNumber > fst acc then (matchNumber, i) else acc)
          } else Some acc
      | None \<Rightarrow> Some acc)
   }"

primrec leastValue_range :: "Card option list \<Rightarrow> int \<Rightarrow> int \<times> int \<Rightarrow> int \<times> int" where
  "leastValue_range [] i acc = acc"
| "leastValue_range (p # ps) i acc =
     leastValue_range ps (i + 1)
       (case p of
          Some crd \<Rightarrow>
            if face crd \<noteq> ''Jack'' \<and> getCardValue p < fst acc then (getCardValue p, i) else acc
        | None \<Rightarrow> acc)"

definition cpuActionAdvanced :: "Casino \<Rightarrow> int option" where
  "cpuActionAdvanced c = do {
     cardIdx \<leftarrow> tryCaptureMove c;
     if cardIdx \<noteq> - 1 then Some cardIdx
     else (let safeIdx = trySafeDiscard c in
       if safeIdx \<noteq> - 1 then Some safeIdx
       else do {
         (greatestMatchNumber, cardToPlay) \<leftarrow> for_loop 0 HandSize (bestMatch_step c) (0, - 1);
         if greatestMatchNumber \<noteq> 0 \<and> cardToPlay \<noteq> - 1 then Some cardToPlay
         else (let (leastValue, leastIdx) = leastValue_range (cpuCards c) 0 (100, - 1) in
           if leastIdx \<noteq> - 1 then Some leastIdx else Some (- 1))
       })
   }"

primrec firstHeld_range :: "Card option list \<Rightarrow> int \<Rightarrow> int \<Rightarrow> int" where
  "firstHeld_range [] i dflt = dflt"
| "firstHeld_range (p # ps) i dflt =
     (case p of Some _ \<Rightarrow> i | None \<Rightarrow> firstHeld_range ps (i + 1) dflt)"

text \<open>
  \<open>CPUaction\<close> returns the chosen slot; the random fallback advances the random source,
  so the state is returned with it.
\<close>

definition CPUaction :: "Casino \<Rightarrow> (int \<times> Casino) option" where
  "CPUaction c = do {
     cardIdx \<leftarrow> (case level c of
                   LevelBeginner \<Rightarrow> cpuActionBeginner c
                 | LevelIntermediate \<Rightarrow> cpuActionIntermediate c
                 | LevelAdvanced \<Rightarrow> cpuActionAdvanced c
                 | LevelNotSelected \<Rightarrow> Some (- 1));
     if cardIdx = - 1 then do {
       (randomIdx, c') \<leftarrow> findRandomNonJack c;
       if randomIdx \<noteq> - 1 then Some (randomIdx, c')
       else Some (firstHeld_range (cpuCards c') 0 cardIdx, c')
     } else Some (cardIdx, c)
   }"

section \<open>The computer's move (cpuPlays)\<close>

function anyValidCard :: "Card option list \<Rightarrow> int \<Rightarrow> int \<Rightarrow> int option" where
  "anyValidCard cards i idx =
     (if i < HandSize then
        (case nth_slot cards i of
           None \<Rightarrow> None
         | Some (Some _) \<Rightarrow> Some i
         | Some None \<Rightarrow> anyValidCard cards (i + 1) idx)
      else Some idx)"
  by pat_completeness auto
termination
  by (relation "measure (\<lambda>(cards, i, idx). nat (HandSize - i))") auto

declare anyValidCard.simps [simp del]

definition cpuPlays :: "Casino \<Rightarrow> Casino option" where
  "cpuPlays c =
     (if \<not> list_ex (\<lambda>p. p \<noteq> None) (cpuCards c) then Some c
      else do {
        (chosen, c1) \<leftarrow> CPUaction c;
        let c2 = c1\<lparr>lastPlayedCPUCardIdx := chosen\<rparr>;
        c3 \<leftarrow> (if lastPlayedCPUCardIdx c2 = - 1 then do {
                 idx \<leftarrow> anyValidCard (cpuCards c2) 0 (lastPlayedCPUCardIdx c2);
                 Some (c2\<lparr>lastPlayedCPUCardIdx := idx\<rparr>)
               } else Some c2);
        cpuPlayedCard \<leftarrow> nth_slot (cpuCards c3) (lastPlayedCPUCardIdx c3);
        (case cpuPlayedCard of
           None \<Rightarrow> Some c3
         | Some _ \<Rightarrow> do {
             cc \<leftarrow> set_slot (cpuCards c3) (lastPlayedCPUCardIdx c3) None;
             c4 \<leftarrow> processTurn cpuPlayedCard CPU (c3\<lparr>cpuCards := cc\<rparr>);
             Some (c4\<lparr>canUndo := True\<rparr>)
           })
      })"

section \<open>End of hand and end of game\<close>

definition isHandFinished :: "Casino \<Rightarrow> bool" where
  "isHandFinished c = list_all (\<lambda>p. p = None) (playerCards c)"

definition awardFinalPile :: "Casino \<Rightarrow> Casino option" where
  "awardFinalPile c =
     (if cardsOnTable c \<le> 0 then Some c
      else do {
        pointsFromLastPile \<leftarrow> pointCalculator c;
        let c1 = (if lastScorer c = Player
                  then c\<lparr>playerPoint := playerPoint c + pointsFromLastPile,
                         cardsCollectedByPlayer := cardsCollectedByPlayer c + cardsOnTable c\<rparr>
                  else c\<lparr>cpuPoint := cpuPoint c + pointsFromLastPile,
                         cardsCollectedByCPU := cardsCollectedByCPU c + cardsOnTable c\<rparr>);
        Some (c1\<lparr>cardsOnTable := 0\<rparr>)
      })"

definition handleEndOfHand :: "Casino \<Rightarrow> Casino option" where
  "handleEndOfHand c = do {
     c1 \<leftarrow> deal c;
     Some (c1\<lparr>gameState := StatePlayerTurn\<rparr>)
   }"

definition handleEndOfGame :: "Casino \<Rightarrow> Casino option" where
  "handleEndOfGame c = do {
     c1 \<leftarrow> awardFinalPile c;
     let c2 = c1\<lparr>gameState := StateGameOver\<rparr>;
     Some (if cardsCollectedByPlayer c2 > cardsCollectedByCPU c2
           then c2\<lparr>playerPoint := playerPoint c2 + 3\<rparr>
           else if cardsCollectedByCPU c2 > cardsCollectedByPlayer c2
           then c2\<lparr>cpuPoint := cpuPoint c2 + 3\<rparr>
           else c2)
   }"

definition checkEndOfHand :: "Casino \<Rightarrow> Casino option" where
  "checkEndOfHand c =
     (if gameState c = StateGameOver then Some c
      else if isHandFinished c then
        (if currentCard c = DeckSize then handleEndOfGame c else handleEndOfHand c)
      else Some c)"

section \<open>Undo (undoImplementation)\<close>

text \<open>
  The loop that clears the slots after the restored prefix stops at the first slot that
  is already nil. The write follows a successful read of the same index.
\<close>

function nilOut :: "Card option list \<Rightarrow> int \<Rightarrow> Card option list option" where
  "nilOut xs i =
     (if i < int (length xs) then
        (case nth_slot xs i of
           None \<Rightarrow> None
         | Some None \<Rightarrow> Some xs
         | Some (Some _) \<Rightarrow> nilOut (xs[nat i := None]) (i + 1))
      else Some xs)"
  by pat_completeness auto
termination
  by (relation "measure (\<lambda>(xs, i). nat (int (length xs) - i))") auto

declare nilOut.simps [simp del]

text \<open>\<open>undoImplementation\<close> returns its boolean result together with the state it leaves.\<close>

definition undoImplementation :: "Casino \<Rightarrow> (bool \<times> Casino) option" where
  "undoImplementation c =
     (if \<not> canUndo c then Some (False, c)
      else do {
        let u = undoState c;
        let c1 = c\<lparr>playerPoint := us_playerPoint u,
                    cpuPoint := us_cpuPoint u,
                    lastScorer := us_lastScorer u,
                    cardsCollectedByPlayer := us_cardsCollectedByPlayer u,
                    cardsCollectedByCPU := us_cardsCollectedByCPU u,
                    cardsOnTable := us_cardsOnTable u,
                    tableCards := copy_into (tableCards c) (us_tableCards u)\<rparr>;
        tc \<leftarrow> nilOut (tableCards c1) (cardsOnTable c1);
        let c2 = c1\<lparr>tableCards := tc,
                    playerCards := copy_into (playerCards c1) (us_playerCards u),
                    cpuCards := copy_into (cpuCards c1) (us_cpuCards u),
                    initialHiddenCards := us_initialHiddenCards u,
                    safeDiscardCandidate := us_safeDiscardCandidate u,
                    isInitialPile := us_isInitialPile u,
                    currentHandMemoryLength := us_currentHandMemoryLength u,
                    currentHandMemory := copy_into (currentHandMemory c1) (us_currentHandMemory u)\<rparr>;
        hm \<leftarrow> nilOut (currentHandMemory c2) (currentHandMemoryLength c2);
        Some (True, c2\<lparr>currentHandMemory := hm, canUndo := False\<rparr>)
      })"

section \<open>The scoring table as the specification words it\<close>

text \<open>
  The specification's scoring table: one point per Jack, one per Ace, two for the Deuce
  of Clubs, three for the Ten of Diamonds, nothing for any other card; a pile scores the
  sum over its cards.
\<close>

definition tableScore :: "Card \<Rightarrow> int" where
  "tableScore crd =
     (if face crd = ''Jack'' then 1 else 0) + (if face crd = ''Ace'' then 1 else 0)
     + (if face crd = ''Deuce'' \<and> suit crd = ''Clubs'' then 2 else 0)
     + (if face crd = ''Ten'' \<and> suit crd = ''Diamonds'' then 3 else 0)"

definition pileScore :: "Card list \<Rightarrow> int" where
  "pileScore pile = sum_list (map tableScore pile)"

section \<open>Counting cards\<close>

text \<open>The number of occupied slots of a hand.\<close>

definition held :: "Card option list \<Rightarrow> int" where
  "held xs = int (length (filter (\<lambda>p. p \<noteq> None) xs))"

text \<open>
  The five terms of the conservation sum: undealt cards, cards in both hands, cards on
  the table pile, and the cards each side has collected.
\<close>

definition cardTotal :: "Casino \<Rightarrow> int" where
  "cardTotal c =
     (DeckSize - currentCard c) + (held (playerCards c) + held (cpuCards c))
     + cardsOnTable c + cardsCollectedByPlayer c + cardsCollectedByCPU c"

text \<open>
  What the engine keeps instead: during \<open>StatePileCaptured\<close> the captured pile has been
  credited to the scorer and still lies on the table until \<open>finalizeCapture\<close>, so it is
  counted twice there.
\<close>

definition conserved :: "Casino \<Rightarrow> bool" where
  "conserved c \<longleftrightarrow>
     cardTotal c =
       (if gameState c = StatePileCaptured then DeckSize + cardsOnTable c else DeckSize)"

text \<open>The score and the collection count that \<open>processTurn\<close> credits for a player id.\<close>

definition scoreOf :: "PlayerID \<Rightarrow> Casino \<Rightarrow> int" where
  "scoreOf playerID c = (if playerID = Player then playerPoint c else cpuPoint c)"

definition collectedBy :: "PlayerID \<Rightarrow> Casino \<Rightarrow> int" where
  "collectedBy playerID c =
     (if playerID = Player then cardsCollectedByPlayer c else cardsCollectedByCPU c)"

section \<open>Well-formed engine states\<close>

text \<open>
  The slices allocated by \<open>NewCasino\<close> keep their lengths, and the two length counters,
  as well as their saved copies, stay within the slices.
\<close>

definition wellFormed :: "Casino \<Rightarrow> bool" where
  "wellFormed c \<longleftrightarrow>
     length (playerCards c) = 4 \<and> length (cpuCards c) = 4
     \<and> length (tableCards c) = 52 \<and> length (currentHandMemory c) = 52
     \<and> length (allPlayedCardsMemory c) = 52 \<and> length (deck c) = 52
     \<and> 0 \<le> cardsOnTable c \<and> cardsOnTable c \<le> 52
     \<and> 0 \<le> currentHandMemoryLength c \<and> currentHandMemoryLength c \<le> 52
     \<and> 0 \<le> us_cardsOnTable (undoState c) \<and> us_cardsOnTable (undoState c) \<le> 52
     \<and> 0 \<le> us_currentHandMemoryLength (undoState c)
     \<and> us_currentHandMemoryLength (undoState c) \<le> 52"

text \<open>
  What a play needs in order not to panic: room on the table, no nil card in the pile, non-negative
  memory counters, and three non-nil hidden cards while they are tracked.
\<close>

definition turnReady :: "Casino \<Rightarrow> bool" where
  "turnReady c \<longleftrightarrow>
     0 \<le> cardsOnTable c \<and> cardsOnTable c < int (length (tableCards c))
     \<and> list_all (\<lambda>p. p \<noteq> None) (take (nat (cardsOnTable c)) (tableCards c))
     \<and> 0 \<le> currentHandMemoryLength c \<and> 0 \<le> allPlayedCardsMemoryLength c
     \<and> (case initialHiddenCards c of None \<Rightarrow> True | Some h \<Rightarrow> hiddenCardsMsg h \<noteq> None)"

section \<open>Reachable states\<close>

text \<open>
  The states an engine can be in: a fresh engine, and whatever the public operations
  make of a reachable state when they return.
\<close>

inductive reachable :: "Casino \<Rightarrow> bool" where
  fresh: "reachable (NewCasino r)"
| set_level: "reachable c \<Longrightarrow> reachable (SetLevel l c)"
| start_game: "reachable c \<Longrightarrow> StartGame c = Some (ok, c') \<Longrightarrow> reachable c'"
| reset_game: "reachable c \<Longrightarrow> ResetGame c = Some c' \<Longrightarrow> reachable c'"
| player_plays: "reachable c \<Longrightarrow> playerPlays i c = Some c' \<Longrightarrow> reachable c'"
| computer_plays: "reachable c \<Longrightarrow> cpuPlays c = Some c' \<Longrightarrow> reachable c'"
| finalize_capture: "reachable c \<Longrightarrow> reachable (finalizeCapture c)"
| check_end_of_hand: "reachable c \<Longrightarrow> checkEndOfHand c = Some c' \<Longrightarrow> reachable c'"
| undo: "reachable c \<Longrightarrow> undoImplementation c = Some (ok, c') \<Longrightarrow> reachable c'"

text \<open>
  The states of a game whose driver keeps to the rules of the engine, from any successful
  \<open>StartGame\<close> on a reachable engine. Either side plays outside \<open>StatePileCaptured\<close>. A
  capture is finalized in \<open>StatePileCaptured\<close>, or when no card lies on the table. The end
  of the hand is checked when the check does nothing (the game is over or the human still
  holds a card) or, outside \<open>StatePileCaptured\<close>, when the computer's hand is empty as
  well. Undo is called when it is refused (\<open>canUndo\<close> is false) or, outside
  \<open>StatePileCaptured\<close>, when the retained snapshot is current.

  The flag of the relation says that the snapshot is current: a human move below the
  Advanced level takes the snapshot and sets the flag, and \<open>checkEndOfHand\<close> clears it
  when it deals the next hand, which moves the deck cursor.
\<close>

inductive conducted :: "bool \<Rightarrow> Casino \<Rightarrow> bool" where
  started: "reachable c0 \<Longrightarrow> StartGame c0 = Some (True, c) \<Longrightarrow> conducted False c"
| human: "conducted b c \<Longrightarrow> gameState c \<noteq> StatePileCaptured \<Longrightarrow> playerPlays i c = Some c'
          \<Longrightarrow> conducted (b \<or> level c \<noteq> LevelAdvanced) c'"
| computer: "conducted b c \<Longrightarrow> gameState c \<noteq> StatePileCaptured \<Longrightarrow> cpuPlays c = Some c'
          \<Longrightarrow> conducted b c'"
| finalized: "conducted b c \<Longrightarrow> gameState c = StatePileCaptured \<or> cardsOnTable c = 0
          \<Longrightarrow> conducted b (finalizeCapture c)"
| checked: "conducted b c
          \<Longrightarrow> gameState c = StateGameOver \<or> \<not> isHandFinished c
              \<or> (gameState c \<noteq> StatePileCaptured \<and> held (cpuCards c) = 0)
          \<Longrightarrow> checkEndOfHand c = Some c'
          \<Longrightarrow> conducted (b \<and> currentCard c' = currentCard c) c'"
| undone: "conducted b c
          \<Longrightarrow> \<not> canUndo c \<or> (gameState c \<noteq> StatePileCaptured \<and> b)
          \<Longrightarrow> undoImplementation c = Some (ok, c')
          \<Longrightarrow> conducted b c'"

section \<open>Driver scripts\<close>

text \<open>A driver's script: the public operations in the order they are called.\<close>

datatype Command =
  CmdSetLevel int | CmdStart | CmdReset | CmdPlayer int | CmdCPU | CmdFinalize | CmdCheck
  | CmdUndo

fun perform :: "Command \<Rightarrow> Casino \<Rightarrow> Casino option" where
  "perform (CmdSetLevel l) c = Some (SetLevel l c)"
| "perform CmdStart c = map_option snd (StartGame c)"
| "perform CmdReset c = ResetGame c"
| "perform (CmdPlayer i) c = playerPlays i c"
| "perform CmdCPU c = cpuPlays c"
| "perform CmdFinalize c = Some (finalizeCapture c)"
| "perform CmdCheck c = checkEndOfHand c"
| "perform CmdUndo c = map_option snd (undoImplementation c)"

fun performAll :: "Command list \<Rightarrow> Casino \<Rightarrow> Casino option" where
  "performAll [] c = Some c"
| "performAll (cmd # cmds) c = (case perform cmd c of None \<Rightarrow> None | Some c' \<Rightarrow> performAll cmds c')"

text \<open>A random source whose \<open>k\<close>-th raw value is \<open>k\<close>: the shuffle then leaves the deck in
  the order \<open>NewCasino\<close> built it.\<close>

definition identityDraws :: "nat \<Rightarrow> nat" where
  "identityDraws k = k"

definition engineAfter :: "Command list \<Rightarrow> Casino option" where
  "engineAfter script = performAll script (NewCasino identityDraws)"

definition samplePile :: "Card list" where
  "samplePile =
     [\<lparr>face = ''Ace'', suit = ''Spades'', iconPath = ''40''\<rparr>,
      \<lparr>face = ''Jack'', suit = ''Hearts'', iconPath = ''11''\<rparr>,
      \<lparr>face = ''Deuce'', suit = ''Clubs'', iconPath = ''28''\<rparr>,
      \<lparr>face = ''Ten'', suit = ''Diamonds'', iconPath = ''23''\<rparr>]"

definition sampleTable :: Casino where
  "sampleTable =
     (NewCasino identityDraws)
       \<lparr>tableCards := map Some samplePile @ replicate 48 None, cardsOnTable := 4\<rparr>"

section \<open>Invariants used in the proofs\<close>

text \<open>What the loops of \<open>resetGameInternal\<close> keep once the first assignments are made.\<close>

definition resetShape :: "Casino \<Rightarrow> bool" where
  "resetShape t \<longleftrightarrow> wellFormed t \<and> level t = LevelNotSelected \<and> gameState t = StateNotStarted"

text \<open>
  What \<open>deal\<close> relies on: four slots in each hand and no nil card in the deck.
\<close>

definition dealReady :: "Casino \<Rightarrow> bool" where
  "dealReady c \<longleftrightarrow>
     length (playerCards c) = 4 \<and> length (cpuCards c) = 4
     \<and> list_all (\<lambda>p. p \<noteq> None) (deck c)"

text \<open>No nil card in the deck: \<open>shuffle\<close> permutes the deck and nothing else writes it.\<close>

definition deckFull :: "Casino \<Rightarrow> bool" where
  "deckFull c \<longleftrightarrow> list_all (\<lambda>p. p \<noteq> None) (deck c)"

text \<open>
  What a capture needs of the hidden cards while they are tracked: three cards, none of
  them nil, so that the message can be built.
\<close>

definition hiddenKnown :: "Card option list option \<Rightarrow> bool" where
  "hiddenKnown h \<longleftrightarrow> (case h of None \<Rightarrow> True | Some cards \<Rightarrow> hiddenCardsMsg cards \<noteq> None)"

text \<open>
  The pile is sound: no nil card among the cards on the table, hidden cards that are known,
  a long-term memory counter that is not negative, and the same for the pile and the
  hidden cards of the retained snapshot.
\<close>

definition pileSound :: "Casino \<Rightarrow> bool" where
  "pileSound c \<longleftrightarrow>
     0 \<le> allPlayedCardsMemoryLength c
     \<and> list_all (\<lambda>p. p \<noteq> None) (take (nat (cardsOnTable c)) (tableCards c))
     \<and> hiddenKnown (initialHiddenCards c)
     \<and> list_all (\<lambda>p. p \<noteq> None) (us_tableCards (undoState c))
     \<and> length (us_tableCards (undoState c)) = nat (us_cardsOnTable (undoState c))
     \<and> hiddenKnown (us_initialHiddenCards (undoState c))"

text \<open>
  The conservation sum of the state that undo would install: the present deck cursor with
  the hands, the pile and the collected cards of the retained snapshot.
\<close>

definition snapshotTotal :: "Casino \<Rightarrow> int" where
  "snapshotTotal c =
     (DeckSize - currentCard c)
     + (held (us_playerCards (undoState c)) + held (us_cpuCards (undoState c)))
     + us_cardsOnTable (undoState c) + us_cardsCollectedByPlayer (undoState c)
     + us_cardsCollectedByCPU (undoState c)"

text \<open>The retained snapshot is current: two hands of four slots, and 52 cards in all.\<close>

definition snapshotFits :: "Casino \<Rightarrow> bool" where
  "snapshotFits c \<longleftrightarrow>
     length (us_playerCards (undoState c)) = 4 \<and> length (us_cpuCards (undoState c)) = 4
     \<and> snapshotTotal c = DeckSize"

text \<open>The invariant of a game driven by the rules.\<close>

definition conservationInv :: "Casino \<Rightarrow> bool" where
  "conservationInv c \<longleftrightarrow> dealReady c \<and> conserved c"

section \<open>Example games\<close>

text \<open>
  Engines reached by scripts over the unshuffled deck: the table holds the Ace to the
  Four of Hearts, the human the Five to the Eight, the computer the Nine to the Queen.
  The computer answers the Five with its Jack and captures.
\<close>

definition gameStarted :: Casino where
  "gameStarted = the (engineAfter [CmdSetLevel 1, CmdStart])"

definition gameAfterPlayer :: Casino where
  "gameAfterPlayer = the (engineAfter [CmdSetLevel 1, CmdStart, CmdPlayer 0])"

definition gameCaptured :: Casino where
  "gameCaptured = the (engineAfter [CmdSetLevel 1, CmdStart, CmdPlayer 0, CmdCPU])"

definition gameResumed :: Casino where
  "gameResumed =
     the (engineAfter [CmdSetLevel 1, CmdStart, CmdPlayer 0, CmdCPU, CmdFinalize])"

definition gameSecondRound :: Casino where
  "gameSecondRound =
     the (engineAfter [CmdSetLevel 1, CmdStart, CmdPlayer 0, CmdCPU, CmdFinalize,
                       CmdPlayer 1, CmdCPU])"

definition gameSecondMove :: Casino where
  "gameSecondMove =
     the (engineAfter [CmdSetLevel 1, CmdStart, CmdPlayer 0, CmdCPU, CmdFinalize, CmdPlayer 1])"

definition gameThirdMove :: Casino where
  "gameThirdMove =
     the (engineAfter [CmdSetLevel 1, CmdStart, CmdPlayer 0, CmdCPU, CmdFinalize,
                       CmdPlayer 1, CmdCPU, CmdPlayer 2])"

definition gameThirdUndone :: Casino where
  "gameThirdUndone =
     the (engineAfter [CmdSetLevel 1, CmdStart, CmdPlayer 0, CmdCPU, CmdFinalize,
                       CmdPlayer 1, CmdCPU, CmdPlayer 2, CmdUndo])"

definition advancedCaptured :: Casino where
  "advancedCaptured = the (engineAfter [CmdSetLevel 3, CmdStart, CmdPlayer 0, CmdCPU])"

definition levelCleared :: Casino where
  "levelCleared = the (engineAfter [CmdSetLevel 1, CmdStart, CmdSetLevel 0])"

text \<open>The first hand played out, the next hand dealt, and then undo.\<close>

definition gameNextHandUndone :: Casino where
  "gameNextHandUndone =
     the (engineAfter [CmdSetLevel 1, CmdStart, CmdPlayer 0, CmdCPU, CmdFinalize,
                       CmdPlayer 1, CmdCPU, CmdPlayer 2, CmdCPU, CmdPlayer 3, CmdCPU,
                       CmdCheck, CmdUndo])"

text \<open>
  A shuffle that only swaps deck positions 4 and 16, so that the human's first card is
  the Four of Diamonds and captures the pile topped by the Four of Hearts. The human
  moves again after the capture and ends the hand one card ahead of the computer.
\<close>

definition swapDraws :: "nat \<Rightarrow> nat" where
  "swapDraws k = (if k = 4 then 16 else k)"

definition humanAheadScript :: "Command list" where
  "humanAheadScript =
     [CmdSetLevel 1, CmdStart, CmdPlayer 0, CmdFinalize, CmdPlayer 1, CmdCPU, CmdFinalize,
      CmdPlayer 2, CmdCPU, CmdPlayer 3, CmdCPU]"

definition gameHumanAhead :: Casino where
  "gameHumanAhead = the (performAll humanAheadScript (NewCasino swapDraws))"

definition gameDealtOver :: Casino where
  "gameDealtOver = the (performAll (humanAheadScript @ [CmdCheck]) (NewCasino swapDraws))"

text \<open>
  A shuffle that puts the Eight of Diamonds into the computer's hand, and a random choice
  that keeps it there until the human's Eight lies on the table: the computer's last card
  of the hand captures, and the hand ends in \<open>StatePileCaptured\<close>.
\<close>

definition lastCaptureDraws :: "nat \<Rightarrow> nat" where
  "lastCaptureDraws k = (if k = 11 then 20 else if k = 53 then 0 else k)"

definition lastCaptureScript :: "Command list" where
  "lastCaptureScript =
     [CmdSetLevel 1, CmdStart, CmdPlayer 0, CmdCPU, CmdFinalize, CmdPlayer 1, CmdCPU,
      CmdPlayer 2, CmdCPU, CmdPlayer 3, CmdCPU]"

definition jackOfHearts :: Card where
  "jackOfHearts = \<lparr>face = ''Jack'', suit = ''Hearts'', iconPath = ''11''\<rparr>"

definition jackOfSpades :: Card where
  "jackOfSpades = \<lparr>face = ''Jack'', suit = ''Spades'', iconPath = ''50''\<rparr>"

definition sevenOfHearts :: Card where
  "sevenOfHearts = \<lparr>face = ''Seven'', suit = ''Hearts'', iconPath = ''7''\<rparr>"

text \<open>A table holding a single Jack.\<close>

definition jackTable :: Casino where
  "jackTable =
     (NewCasino identityDraws)
       \<lparr>tableCards := Some jackOfHearts # replicate 51 None, cardsOnTable := 1\<rparr>"

section \<open>Properties of the scoring calculator\<close>

lemma nth_slot_pile:
  assumes "take (length pile) tc = map Some pile" "0 \<le> i" "nat i < length pile"
  shows "nth_slot tc i = Some (Some (pile ! nat i))"
proof -
  have len: "length pile \<le> length tc"
    using assms(1) by (metis length_map length_take min_def nat_le_linear)
  have "tc ! nat i = take (length pile) tc ! nat i" using assms(3) by simp
  also have "\<dots> = Some (pile ! nat i)" using assms(1,3) by simp
  finally show ?thesis using len assms(2,3) by (simp add: nth_slot_def)
qed

lemma tableScore_step:
  "(if face crd = ''Jack'' then point + 1
    else if face crd = ''Ace'' then point + 1
    else if face crd = ''Deuce'' then (if suit crd = ''Clubs'' then point + 2 else point)
    else if face crd = ''Ten'' then (if suit crd = ''Diamonds'' then point + 3 else point)
    else point) = point + tableScore crd"
  by (simp add: tableScore_def)

lemma pointCalculator_loop_sum:
  "take (length pile) tc = map Some pile \<Longrightarrow> n = int (length pile) \<Longrightarrow> 0 \<le> i \<Longrightarrow>
   pointCalculator_loop tc n i acc = Some (acc + pileScore (drop (nat i) pile))"
proof (induction tc n i acc rule: pointCalculator_loop.induct)
  case (1 tc n i point)
  show ?case
  proof (cases "i < n")
    case False
    then have "drop (nat i) pile = []" using "1.prems" by simp
    with False show ?thesis
      by (simp add: pointCalculator_loop.simps [of tc n i point] pileScore_def)
  next
    case True
    then have lt: "nat i < length pile" using "1.prems" by simp
    have slot: "nth_slot tc i = Some (Some (pile ! nat i))"
      using nth_slot_pile [OF "1.prems"(1) "1.prems"(3) lt] .
    have rec: "pointCalculator_loop tc n (i + 1) (point + tableScore (pile ! nat i))
               = Some (point + tableScore (pile ! nat i) + pileScore (drop (nat (i + 1)) pile))"
      using "1.IH" [OF True slot refl] "1.prems" by (simp add: tableScore_step)
    have dr: "drop (nat i) pile = pile ! nat i # drop (nat (i + 1)) pile"
      using lt "1.prems"(3) by (simp add: Cons_nth_drop_Suc nat_add_distrib)
    show ?thesis
      using True slot rec
      by (simp add: pointCalculator_loop.simps [of tc n i point] tableScore_step dr pileScore_def)
  qed
qed

text \<open>
  C8. Whenever the table pile is the card list \<open>pile\<close> (the first \<open>cardsOnTable\<close> slots of
  the table hold exactly those cards), \<open>pointCalculator\<close> returns the sum over the pile
  of 1 per Jack, 1 per Ace, 2 for the Deuce of Clubs, 3 for the Ten of Diamonds and 0 for
  every other card.
\<close>

theorem pointCalculator_scoring_table:
  assumes "cardsOnTable c = int (length pile)"
    and "take (length pile) (tableCards c) = map Some pile"
  shows "pointCalculator c = Some (pileScore pile)"
  using pointCalculator_loop_sum [OF assms(2) assms(1), of 0 0]
  by (simp add: pointCalculator_def)

text \<open>The pile of one Ace, one Jack, the Deuce of Clubs and the Ten of Diamonds scores 7.\<close>

theorem pointCalculator_scoring_table_witness:
  "cardsOnTable sampleTable = int (length samplePile)
   \<and> take (length samplePile) (tableCards sampleTable) = map Some samplePile
   \<and> pointCalculator sampleTable = Some 7"
proof -
  have a: "cardsOnTable sampleTable = int (length samplePile)"
    by (simp add: sampleTable_def samplePile_def)
  have b: "take (length samplePile) (tableCards sampleTable) = map Some samplePile"
    by (simp add: sampleTable_def)
  have c: "pileScore samplePile = 7"
    by (simp add: pileScore_def samplePile_def tableScore_def)
  show ?thesis using pointCalculator_scoring_table [OF a b] a b c by simp
qed

section \<open>One play: case analysis of processTurn\<close>

lemma set_slotD:
  "set_slot xs i v = Some ys \<Longrightarrow> ys = xs[nat i := v] \<and> 0 \<le> i \<and> i < int (length xs)"
  by (simp add: set_slot_def split: if_splits)

lemma nth_slotD:
  "nth_slot xs i = Some x \<Longrightarrow> x = xs ! nat i \<and> 0 \<le> i \<and> i < int (length xs)"
  by (simp add: nth_slot_def split: if_splits)

lemma rememberPlayed_frame:
  assumes "rememberPlayed p c = Some c1"
  shows "c1 = c\<lparr>currentHandMemory := currentHandMemory c1,
                 currentHandMemoryLength := currentHandMemoryLength c1,
                 allPlayedCardsMemory := allPlayedCardsMemory c1,
                 allPlayedCardsMemoryLength := allPlayedCardsMemoryLength c1\<rparr>"
  using assms
  by (auto simp: rememberPlayed_def split: GameLevel.splits if_splits Option.bind_splits)

lemma rememberPlayed_table:
  assumes "rememberPlayed p c = Some c1"
  shows "tableCards c1 = tableCards c \<and> cardsOnTable c1 = cardsOnTable c"
  using arg_cong [OF rememberPlayed_frame [OF assms], of tableCards]
    arg_cong [OF rememberPlayed_frame [OF assms], of cardsOnTable] by simp

lemma rememberPlayed_total:
  assumes "0 \<le> currentHandMemoryLength c" "0 \<le> allPlayedCardsMemoryLength c"
  shows "rememberPlayed p c \<noteq> None"
  using assms by (simp add: rememberPlayed_def set_slot_def split: GameLevel.splits)

lemma processTurn_cases:
  assumes "processTurn (Some crd) pid c = Some c'"
  shows "\<exists>c1. rememberPlayed (Some crd) c = Some c1 \<and> 0 \<le> cardsOnTable c
           \<and> cardsOnTable c < int (length (tableCards c))
           \<and> ((1 \<le> cardsOnTable c
                \<and> (\<exists>beneath. tableCards c ! nat (cardsOnTable c - 1) = Some beneath
                     \<and> (face crd = face beneath \<or> face crd = ''Jack'')
                     \<and> capturePile pid (Some beneath) (face crd) (face beneath)
                          (c1\<lparr>tableCards := (tableCards c)[nat (cardsOnTable c) := Some crd],
                              cardsOnTable := cardsOnTable c + 1\<rparr>) = Some c'))
              \<or> (c' = passTurn pid (c1\<lparr>tableCards := (tableCards c)[nat (cardsOnTable c) := Some crd],
                                        cardsOnTable := cardsOnTable c + 1\<rparr>)
                  \<and> \<not> (1 \<le> cardsOnTable c
                        \<and> (\<exists>beneath. tableCards c ! nat (cardsOnTable c - 1) = Some beneath
                              \<and> (face crd = face beneath \<or> face crd = ''Jack'')))))"
proof -
  from assms obtain c1 where r: "rememberPlayed (Some crd) c = Some c1"
    by (auto simp: processTurn_def split: Option.bind_splits)
  note t = rememberPlayed_table [OF r]
  from assms r t obtain tc where s: "set_slot (tableCards c) (cardsOnTable c) (Some crd) = Some tc"
    by (auto simp: processTurn_def split: Option.bind_splits)
  note sd = set_slotD [OF s]
  have lt: "nat (cardsOnTable c) < length (tableCards c)" using sd by linarith
  let ?c2 = "c1\<lparr>tableCards := (tableCards c)[nat (cardsOnTable c) := Some crd],
                 cardsOnTable := cardsOnTable c + 1\<rparr>"
  have rest: "(if cardsOnTable ?c2 > 1 then do {
            topCardOnTable \<leftarrow> nth_slot (tableCards ?c2) (cardsOnTable ?c2 - 1);
            secondToTopCard \<leftarrow> nth_slot (tableCards ?c2) (cardsOnTable ?c2 - 2);
            topFace \<leftarrow> GetFace topCardOnTable;
            secondFace \<leftarrow> GetFace secondToTopCard;
            if topFace = secondFace \<or> topFace = ''Jack''
            then capturePile pid secondToTopCard topFace secondFace ?c2
            else Some (passTurn pid ?c2)
          } else Some (passTurn pid ?c2)) = Some c'"
    using assms r s t sd by (simp add: processTurn_def Let_def cong: if_cong)
  show ?thesis
  proof (cases "1 \<le> cardsOnTable c")
    case False
    with rest r sd show ?thesis by auto
  next
    case True
    have top: "nth_slot (tableCards ?c2) (cardsOnTable ?c2 - 1) = Some (Some crd)"
      using sd lt by (simp add: nth_slot_def)
    have snd: "nth_slot (tableCards ?c2) (cardsOnTable ?c2 - 2)
                 = Some (tableCards c ! nat (cardsOnTable c - 1))"
      using sd lt True by (simp add: nth_slot_def nat_diff_distrib)
    show ?thesis
    proof (cases "tableCards c ! nat (cardsOnTable c - 1)")
      case None
      with rest True top snd show ?thesis by (simp add: GetFace_def)
    next
      case (Some beneath)
      with rest True top snd r sd show ?thesis
        by (auto simp: GetFace_def split: if_splits)
    qed
  qed
qed

lemma capturePile_frame:
  assumes "capturePile pid second tf sf c = Some c'"
  shows "c' = c\<lparr>safeDiscardCandidate := safeDiscardCandidate c',
                 initialHiddenCards := None,
                 initialPileCaptureMsg := initialPileCaptureMsg c',
                 playerPoint := playerPoint c',
                 cpuPoint := cpuPoint c',
                 cardsCollectedByPlayer := cardsCollectedByPlayer c',
                 cardsCollectedByCPU := cardsCollectedByCPU c',
                 gameState := StatePileCaptured,
                 lastScorer := pid\<rparr>"
  using assms
  by (auto simp: capturePile_def Let_def split: option.splits if_splits Option.bind_splits prod.splits)

lemma capturePile_effect:
  assumes "capturePile pid second tf sf c = Some c'"
  shows "\<exists>points collected. captureAward tf sf c = Some (points, collected)
           \<and> playerPoint c' = playerPoint c + (if pid = Player then points else 0)
           \<and> cpuPoint c' = cpuPoint c + (if pid = Player then 0 else points)
           \<and> cardsCollectedByPlayer c' = cardsCollectedByPlayer c + (if pid = Player then collected else 0)
           \<and> cardsCollectedByCPU c' = cardsCollectedByCPU c + (if pid = Player then 0 else collected)"
  using assms
  by (auto simp: capturePile_def captureAward_def pointCalculator_def Let_def
      split: option.splits if_splits Option.bind_splits prod.splits)

lemma captureAward_collected:
  assumes "captureAward tf sf c = Some (points, collected)"
  shows "collected = cardsOnTable c"
  using assms by (auto simp: captureAward_def split: if_splits Option.bind_splits)

lemma capturePile_total:
  assumes "case initialHiddenCards c of None \<Rightarrow> True | Some h \<Rightarrow> hiddenCardsMsg h \<noteq> None"
    and "captureAward tf sf c \<noteq> None"
  shows "capturePile pid second tf sf c \<noteq> None"
  using assms
  by (auto simp: capturePile_def captureAward_def pointCalculator_def Let_def
      split: option.splits if_splits Option.bind_splits prod.splits)

lemma all_held_map_the:
  "list_all (\<lambda>p. p \<noteq> None) xs \<Longrightarrow> map Some (map the xs) = xs"
  by (induction xs) auto

lemma pointCalculator_total:
  assumes "0 \<le> cardsOnTable c" "cardsOnTable c \<le> int (length (tableCards c))"
    and "list_all (\<lambda>p. p \<noteq> None) (take (nat (cardsOnTable c)) (tableCards c))"
  shows "pointCalculator c = Some (pileScore (map the (take (nat (cardsOnTable c)) (tableCards c))))"
proof -
  let ?pile = "map the (take (nat (cardsOnTable c)) (tableCards c))"
  have len: "length ?pile = nat (cardsOnTable c)" using assms(1,2) by simp
  have a: "take (length ?pile) (tableCards c) = map Some ?pile"
    using all_held_map_the [OF assms(3)] len by simp
  have b: "cardsOnTable c = int (length ?pile)" using len assms(1) by simp
  show ?thesis
    using pointCalculator_loop_sum [OF a b, of 0 0] by (simp add: pointCalculator_def)
qed

lemma processTurn_capture_eq:
  assumes r: "rememberPlayed (Some crd) c = Some c1"
    and n: "1 \<le> cardsOnTable c" "cardsOnTable c < int (length (tableCards c))"
    and u: "tableCards c ! nat (cardsOnTable c - 1) = Some beneath"
    and m: "face crd = face beneath \<or> face crd = ''Jack''"
  shows "processTurn (Some crd) pid c =
           capturePile pid (Some beneath) (face crd) (face beneath)
             (c1\<lparr>tableCards := (tableCards c)[nat (cardsOnTable c) := Some crd],
                 cardsOnTable := cardsOnTable c + 1\<rparr>)"
proof -
  note t = rememberPlayed_table [OF r]
  have lt: "nat (cardsOnTable c) < length (tableCards c)" using n by linarith
  let ?c2 = "c1\<lparr>tableCards := (tableCards c)[nat (cardsOnTable c) := Some crd],
                 cardsOnTable := cardsOnTable c + 1\<rparr>"
  have top: "nth_slot (tableCards ?c2) (cardsOnTable ?c2 - 1) = Some (Some crd)"
    using n lt by (simp add: nth_slot_def)
  have snd: "nth_slot (tableCards ?c2) (cardsOnTable ?c2 - 2) = Some (Some beneath)"
    using n lt u by (simp add: nth_slot_def nat_diff_distrib)
  have s: "set_slot (tableCards c) (cardsOnTable c) (Some crd)
             = Some ((tableCards c)[nat (cardsOnTable c) := Some crd])"
    using n by (simp add: set_slot_def)
  have "processTurn (Some crd) pid c =
          (if cardsOnTable ?c2 > 1 then do {
            topCardOnTable \<leftarrow> nth_slot (tableCards ?c2) (cardsOnTable ?c2 - 1);
            secondToTopCard \<leftarrow> nth_slot (tableCards ?c2) (cardsOnTable ?c2 - 2);
            topFace \<leftarrow> GetFace topCardOnTable;
            secondFace \<leftarrow> GetFace secondToTopCard;
            if topFace = secondFace \<or> topFace = ''Jack''
            then capturePile pid secondToTopCard topFace secondFace ?c2
            else Some (passTurn pid ?c2)
          } else Some (passTurn pid ?c2))"
    using r s t by (simp add: processTurn_def Let_def cong: if_cong)
  also have "\<dots> = capturePile pid (Some beneath) (face crd) (face beneath) ?c2"
    using n m by (simp only: top snd) (auto simp: GetFace_def)
  finally show ?thesis .
qed

text \<open>
  C7. A play that captures is classified by the pile it leaves. When the card lands on a
  pile of one card of the same face (two cards on the table, faces matching) the capture
  is worth 20 points if the face is Jack and 10 points otherwise, and 2 cards are
  collected. Every other capture (a larger pile, or a Jack on a card of another face) is
  worth what \<open>pointCalculator\<close> gives for the whole pile, and all cards of the pile are
  collected. The play returns, in \<open>StatePileCaptured\<close>, with the scorer recorded, and
  the other side's score and collected cards are as before.
\<close>

theorem capture_classification:
  assumes ready: "turnReady c"
    and n1: "1 \<le> cardsOnTable c"
    and u: "tableCards c ! nat (cardsOnTable c - 1) = Some beneath"
    and m: "face crd = face beneath \<or> face crd = ''Jack''"
  shows "\<exists>c'. processTurn (Some crd) pid c = Some c'
          \<and> gameState c' = StatePileCaptured \<and> lastScorer c' = pid
          \<and> cardsOnTable c' = cardsOnTable c + 1
          \<and> (if cardsOnTable c' = 2 \<and> face crd = face beneath
              then scoreOf pid c' = scoreOf pid c + (if face crd = ''Jack'' then 20 else 10)
                   \<and> collectedBy pid c' = collectedBy pid c + 2
              else pointCalculator c' = Some (scoreOf pid c' - scoreOf pid c)
                   \<and> collectedBy pid c' = collectedBy pid c + cardsOnTable c')
          \<and> (if pid = Player
              then cpuPoint c' = cpuPoint c \<and> cardsCollectedByCPU c' = cardsCollectedByCPU c
              else playerPoint c' = playerPoint c
                   \<and> cardsCollectedByPlayer c' = cardsCollectedByPlayer c)"
proof -
  from ready have lens: "0 \<le> currentHandMemoryLength c" "0 \<le> allPlayedCardsMemoryLength c"
    and n2: "cardsOnTable c < int (length (tableCards c))"
    and pile: "list_all (\<lambda>p. p \<noteq> None) (take (nat (cardsOnTable c)) (tableCards c))"
    and hid: "case initialHiddenCards c of None \<Rightarrow> True | Some h \<Rightarrow> hiddenCardsMsg h \<noteq> None"
    by (simp_all add: turnReady_def)
  from rememberPlayed_total [OF lens] obtain c1 where r: "rememberPlayed (Some crd) c = Some c1"
    by blast
  note fr = rememberPlayed_frame [OF r]
  define c2 where "c2 = c1\<lparr>tableCards := (tableCards c)[nat (cardsOnTable c) := Some crd],
                 cardsOnTable := cardsOnTable c + 1\<rparr>"
  have eq: "processTurn (Some crd) pid c = capturePile pid (Some beneath) (face crd) (face beneath) c2"
    unfolding c2_def by (rule processTurn_capture_eq [OF r n1 n2 u m])
  have lt: "nat (cardsOnTable c) < length (tableCards c)" using n1 n2 by linarith
  have tk: "take (nat (cardsOnTable c2)) (tableCards c2)
              = take (nat (cardsOnTable c)) (tableCards c) @ [Some crd]"
    using n1 lt by (simp add: c2_def nat_add_distrib take_Suc_conv_app_nth)
  have pc: "pointCalculator c2 \<noteq> None"
    using pointCalculator_total [of c2] n1 n2 pile tk by (simp add: c2_def)
  have aw: "captureAward (face crd) (face beneath) c2 \<noteq> None"
    using pc by (auto simp: captureAward_def)
  have h2: "initialHiddenCards c2 = initialHiddenCards c"
    using arg_cong [OF fr, of initialHiddenCards] by (simp add: c2_def)
  from capturePile_total [of c2, OF _ aw] hid h2
  obtain c' where cp: "capturePile pid (Some beneath) (face crd) (face beneath) c2 = Some c'"
    by auto
  note cf = capturePile_frame [OF cp]
  have g: "gameState c' = StatePileCaptured" "lastScorer c' = pid"
    using arg_cong [OF cf, of gameState] arg_cong [OF cf, of lastScorer] by simp_all
  have tab: "cardsOnTable c' = cardsOnTable c + 1" "tableCards c' = tableCards c2"
    "cardsOnTable c' = cardsOnTable c2"
    using arg_cong [OF cf, of cardsOnTable] arg_cong [OF cf, of tableCards]
    by (simp_all add: c2_def)
  have pc': "pointCalculator c' = pointCalculator c2"
    using tab by (simp add: pointCalculator_def)
  have old: "scoreOf pid c2 = scoreOf pid c" "collectedBy pid c2 = collectedBy pid c"
    using arg_cong [OF fr, of playerPoint] arg_cong [OF fr, of cpuPoint]
      arg_cong [OF fr, of cardsCollectedByPlayer] arg_cong [OF fr, of cardsCollectedByCPU]
    by (simp_all add: c2_def scoreOf_def collectedBy_def)
  from capturePile_effect [OF cp] obtain points collected where
    a: "captureAward (face crd) (face beneath) c2 = Some (points, collected)"
    and s: "scoreOf pid c' = scoreOf pid c2 + points"
    and k: "collectedBy pid c' = collectedBy pid c2 + collected"
    by (auto simp: scoreOf_def collectedBy_def)
  have award: "if cardsOnTable c' = 2 \<and> face crd = face beneath
              then scoreOf pid c' = scoreOf pid c + (if face crd = ''Jack'' then 20 else 10)
                   \<and> collectedBy pid c' = collectedBy pid c + 2
              else pointCalculator c' = Some (scoreOf pid c' - scoreOf pid c)
                   \<and> collectedBy pid c' = collectedBy pid c + cardsOnTable c'"
    using a s k old tab(3) pc'
    by (auto simp: captureAward_def split: if_splits Option.bind_splits)
  have other: "if pid = Player
              then cpuPoint c' = cpuPoint c \<and> cardsCollectedByCPU c' = cardsCollectedByCPU c
              else playerPoint c' = playerPoint c
                   \<and> cardsCollectedByPlayer c' = cardsCollectedByPlayer c"
    using capturePile_effect [OF cp] arg_cong [OF fr, of playerPoint]
      arg_cong [OF fr, of cpuPoint] arg_cong [OF fr, of cardsCollectedByPlayer]
      arg_cong [OF fr, of cardsCollectedByCPU]
    by (auto simp: c2_def)
  show ?thesis using eq cp g tab(1) award other by simp
qed

section \<open>Counting loops\<close>

lemma for_loop_inv:
  "for_loop i n body s = Some s' \<Longrightarrow> P s
   \<Longrightarrow> (\<And>j t t'. P t \<Longrightarrow> body j t = Some t' \<Longrightarrow> P t') \<Longrightarrow> P s'"
proof (induction i n body s rule: for_loop.induct)
  case (1 i n body s)
  show ?case
  proof (cases "i < n")
    case False
    with "1.prems" show ?thesis by (simp add: for_loop.simps [of i n body s])
  next
    case True
    with "1.prems"(1) obtain t where b: "body i s = Some t"
      and rest: "for_loop (i + 1) n body t = Some s'"
      by (auto simp: for_loop.simps [of i n body s] split: option.splits)
    have "P t" using "1.prems"(3) [OF "1.prems"(2) b] .
    then show ?thesis
      by (rule "1.IH" [OF True b rest]) (rule "1.prems"(3))
  qed
qed

lemma for_loop_total:
  "P s \<Longrightarrow> (\<And>j t. P t \<Longrightarrow> \<exists>t'. body j t = Some t' \<and> P t')
   \<Longrightarrow> \<exists>s'. for_loop i n body s = Some s' \<and> P s'"
proof (induction i n body s rule: for_loop.induct)
  case (1 i n body s)
  show ?case
  proof (cases "i < n")
    case False
    with "1.prems" show ?thesis by (simp add: for_loop.simps [of i n body s])
  next
    case True
    from "1.prems"(2) [OF "1.prems"(1)] obtain t where b: "body i s = Some t" and p: "P t"
      by blast
    have "\<exists>s'. for_loop (i + 1) n body t = Some s' \<and> P s'"
      by (rule "1.IH" [OF True b p]) (rule "1.prems"(2))
    with True b show ?thesis
      by (simp add: for_loop.simps [of i n body s])
  qed
qed

lemma for_loop_4:
  "for_loop 0 4 body s = body 0 s \<bind> body 1 \<bind> body 2 \<bind> body 3"
  by (simp add: for_loop.simps [of 0 4] for_loop.simps [of 1 4] for_loop.simps [of 2 4]
      for_loop.simps [of 3 4] for_loop.simps [of 4 4] split: option.splits)

section \<open>Well-formedness is preserved\<close>

lemma wellFormed_clearHandMemory_step:
  "wellFormed t \<Longrightarrow> clearHandMemory_step j t = Some t' \<Longrightarrow> wellFormed t'"
  by (auto simp: clearHandMemory_step_def wellFormed_def dest!: set_slotD split: Option.bind_splits)

lemma wellFormed_dealPlayer_step:
  "wellFormed t \<Longrightarrow> dealPlayer_step j t = Some t' \<Longrightarrow> wellFormed t'"
  by (auto simp: dealPlayer_step_def wellFormed_def dest!: set_slotD split: Option.bind_splits)

lemma wellFormed_dealCPU_step:
  "wellFormed t \<Longrightarrow> dealCPU_step j t = Some t' \<Longrightarrow> wellFormed t'"
  by (auto simp: dealCPU_step_def wellFormed_def dest!: set_slotD split: Option.bind_splits)

lemma wellFormed_dealTable_step:
  "wellFormed t \<Longrightarrow> dealTable_step j t = Some t' \<Longrightarrow> wellFormed t'"
  by (auto simp: dealTable_step_def wellFormed_def dest!: set_slotD split: Option.bind_splits)

lemma wellFormed_shuffle_step:
  "wellFormed t \<Longrightarrow> shuffle_step j t = Some t' \<Longrightarrow> wellFormed t'"
  by (auto simp: shuffle_step_def Intn_def wellFormed_def dest!: set_slotD split: Option.bind_splits)

lemma wellFormed_resetHands_step:
  "wellFormed t \<Longrightarrow> resetHands_step j t = Some t' \<Longrightarrow> wellFormed t'"
  by (auto simp: resetHands_step_def wellFormed_def dest!: set_slotD split: Option.bind_splits)

lemma wellFormed_resetPiles_step:
  "wellFormed t \<Longrightarrow> resetPiles_step j t = Some t' \<Longrightarrow> wellFormed t'"
  by (auto simp: resetPiles_step_def wellFormed_def dest!: set_slotD split: Option.bind_splits)

lemma wellFormed_clearAllPlayed_step:
  "wellFormed t \<Longrightarrow> clearAllPlayed_step j t = Some t' \<Longrightarrow> wellFormed t'"
  by (auto simp: clearAllPlayed_step_def wellFormed_def dest!: set_slotD split: Option.bind_splits)

lemma wellFormed_deal:
  assumes "wellFormed c" "deal c = Some c'"
  shows "wellFormed c'"
proof (cases "currentCard c \<ge> DeckSize")
  case True
  with assms show ?thesis by (simp add: deal_def)
next
  case False
  with assms(2) obtain c1 c2 where
    c1: "(if \<not> isInitialPile c then do {
                 c' \<leftarrow> for_loop 0 (currentHandMemoryLength c) clearHandMemory_step
                         (c\<lparr>safeDiscardCandidate := None\<rparr>);
                 Some (c'\<lparr>currentHandMemoryLength := 0\<rparr>)
               } else Some c) = Some c1"
    and c2: "for_loop 0 HandSize dealPlayer_step c1 = Some c2"
    and c3: "for_loop 0 HandSize dealCPU_step c2 = Some c'"
    by (auto simp: deal_def split: Option.bind_splits)
  have w1: "wellFormed c1"
  proof (cases "isInitialPile c")
    case True
    with c1 assms(1) show ?thesis by simp
  next
    case False
    with c1 obtain d where d: "for_loop 0 (currentHandMemoryLength c) clearHandMemory_step
                         (c\<lparr>safeDiscardCandidate := None\<rparr>) = Some d"
      and e: "c1 = d\<lparr>currentHandMemoryLength := 0\<rparr>"
      by (auto split: Option.bind_splits)
    have "wellFormed (c\<lparr>safeDiscardCandidate := None\<rparr>)"
      using assms(1) by (simp add: wellFormed_def)
    then have "wellFormed d"
      by (rule for_loop_inv [where P = wellFormed, OF d]) (rule wellFormed_clearHandMemory_step)
    with e show ?thesis by (simp add: wellFormed_def)
  qed
  have w2: "wellFormed c2"
    by (rule for_loop_inv [where P = wellFormed, OF c2 w1]) (rule wellFormed_dealPlayer_step)
  show ?thesis
    by (rule for_loop_inv [where P = wellFormed, OF c3 w2]) (rule wellFormed_dealCPU_step)
qed

lemma wellFormed_shuffle:
  assumes "wellFormed c" "shuffle c = Some c'"
  shows "wellFormed c'"
  using assms(2) unfolding shuffle_def
  by (rule for_loop_inv [where P = wellFormed]) (rule assms(1), rule wellFormed_shuffle_step)

lemma wellFormed_resetGameInternal:
  assumes "wellFormed c" "resetGameInternal c = Some c'"
  shows "wellFormed c'"
proof -
  let ?c1 = "c\<lparr>gameState := StateNotStarted,
                level := LevelNotSelected,
                cardsCollectedByPlayer := 0,
                cardsCollectedByCPU := 0,
                cardsOnTable := 0,
                currentHandMemoryLength := 0,
                allPlayedCardsMemoryLength := 0\<rparr>"
  from assms(2) obtain c2 c4 where
    c2: "for_loop 0 (int (length (allPlayedCardsMemory ?c1))) clearAllPlayed_step ?c1 = Some c2"
    and c4: "for_loop 0 HandSize resetHands_step
               (c2\<lparr>cpuPoint := 0, playerPoint := 0, lastPlayedCPUCardIdx := - 1,
                 lastPlayedPlayerCard := - 1, lastScorer := NoPlayer, isInitialPile := False,
                 canUndo := False, currentCard := 0, safeDiscardCandidate := None,
                 initialHiddenCards := None, initialPileCaptureMsg := []\<rparr>) = Some c4"
    and c5: "for_loop 0 DeckSize resetPiles_step c4 = Some c'"
    by (auto simp: resetGameInternal_def Let_def split: Option.bind_splits)
  have "wellFormed ?c1" using assms(1) by (simp add: wellFormed_def)
  then have "wellFormed c2"
    by (rule for_loop_inv [where P = wellFormed, OF c2]) (rule wellFormed_clearAllPlayed_step)
  then have "wellFormed (c2\<lparr>cpuPoint := 0, playerPoint := 0, lastPlayedCPUCardIdx := - 1,
                 lastPlayedPlayerCard := - 1, lastScorer := NoPlayer, isInitialPile := False,
                 canUndo := False, currentCard := 0, safeDiscardCandidate := None,
                 initialHiddenCards := None, initialPileCaptureMsg := []\<rparr>)"
    by (simp add: wellFormed_def)
  then have "wellFormed c4"
    by (rule for_loop_inv [where P = wellFormed, OF c4]) (rule wellFormed_resetHands_step)
  then show ?thesis
    by (rule for_loop_inv [where P = wellFormed, OF c5]) (rule wellFormed_resetPiles_step)
qed

lemma wellFormed_StartGame:
  assumes "wellFormed c" "StartGame c = Some (ok, c')"
  shows "wellFormed c'"
proof -
  from assms(2) obtain c0 where
    c0: "(if gameState c \<noteq> StateNotStarted then resetGameInternal c else Some c) = Some c0"
    by (auto simp: StartGame_def split: Option.bind_splits)
  have w0: "wellFormed c0"
    using c0 assms(1) wellFormed_resetGameInternal by (auto split: if_splits)
  show ?thesis
  proof (cases "level c0 = LevelNotSelected")
    case True
    with assms(2) c0 w0 show ?thesis by (simp add: StartGame_def)
  next
    case False
    with assms(2) c0 obtain c1 c3 c4 where
      c1: "shuffle (c0\<lparr>currentCard := 0\<rparr>) = Some c1"
      and c3: "for_loop 0 HandSize dealTable_step
                 (c1\<lparr>playerPoint := 0, cpuPoint := 0, cardsCollectedByPlayer := 0,
                   safeDiscardCandidate := None, initialHiddenCards := None,
                   cardsCollectedByCPU := 0, cardsOnTable := HandSize,
                   currentHandMemoryLength := 0, allPlayedCardsMemoryLength := 0,
                   gameState := StatePlayerTurn, isInitialPile := True,
                   lastPlayedCPUCardIdx := - 1, lastPlayedPlayerCard := - 1\<rparr>) = Some c3"
      and c4: "(if length (tableCards c3) \<ge> 3 then do {
                t0 \<leftarrow> nth_slot (tableCards c3) 0;
                t1 \<leftarrow> nth_slot (tableCards c3) 1;
                t2 \<leftarrow> nth_slot (tableCards c3) 2;
                Some (c3\<lparr>initialHiddenCards := Some [t0, t1, t2]\<rparr>)
              } else Some c3) = Some c4"
      and c5: "deal (c4\<lparr>currentCard := HandSize\<rparr>) = Some c'"
      by (simp add: StartGame_def Let_def bind_eq_Some_conv) blast
    have "wellFormed (c0\<lparr>currentCard := 0\<rparr>)" using w0 by (simp add: wellFormed_def)
    then have "wellFormed c1" using c1 by (rule wellFormed_shuffle)
    then have "wellFormed (c1\<lparr>playerPoint := 0, cpuPoint := 0, cardsCollectedByPlayer := 0,
                   safeDiscardCandidate := None, initialHiddenCards := None,
                   cardsCollectedByCPU := 0, cardsOnTable := HandSize,
                   currentHandMemoryLength := 0, allPlayedCardsMemoryLength := 0,
                   gameState := StatePlayerTurn, isInitialPile := True,
                   lastPlayedCPUCardIdx := - 1, lastPlayedPlayerCard := - 1\<rparr>)"
      by (simp add: wellFormed_def HandSize_def)
    then have "wellFormed c3"
      by (rule for_loop_inv [where P = wellFormed, OF c3]) (rule wellFormed_dealTable_step)
    then have "wellFormed c4"
      using c4 by (auto simp: wellFormed_def split: if_splits Option.bind_splits)
    then have "wellFormed (c4\<lparr>currentCard := HandSize\<rparr>)" by (simp add: wellFormed_def)
    then show ?thesis using c5 by (rule wellFormed_deal)
  qed
qed

lemma wellFormed_rememberPlayed:
  "wellFormed c \<Longrightarrow> rememberPlayed p c = Some c1 \<Longrightarrow> wellFormed c1"
  by (auto simp: rememberPlayed_def wellFormed_def dest!: set_slotD
      split: GameLevel.splits if_splits Option.bind_splits)

lemma wellFormed_processTurn:
  assumes "wellFormed c" "processTurn p pid c = Some c'"
  shows "wellFormed c'"
proof (cases p)
  case None
  with assms show ?thesis by (simp add: processTurn_def)
next
  case (Some crd)
  from processTurn_cases [OF assms(2) [unfolded Some]] obtain c1 where
    r: "rememberPlayed (Some crd) c = Some c1"
    and n: "0 \<le> cardsOnTable c" "cardsOnTable c < int (length (tableCards c))"
    and d: "(\<exists>beneath. capturePile pid (Some beneath) (face crd) (face beneath)
                          (c1\<lparr>tableCards := (tableCards c)[nat (cardsOnTable c) := Some crd],
                              cardsOnTable := cardsOnTable c + 1\<rparr>) = Some c')
            \<or> c' = passTurn pid (c1\<lparr>tableCards := (tableCards c)[nat (cardsOnTable c) := Some crd],
                                        cardsOnTable := cardsOnTable c + 1\<rparr>)"
    by blast
  let ?c2 = "c1\<lparr>tableCards := (tableCards c)[nat (cardsOnTable c) := Some crd],
                              cardsOnTable := cardsOnTable c + 1\<rparr>"
  have w1: "wellFormed c1" using assms(1) r by (rule wellFormed_rememberPlayed)
  have w2: "wellFormed ?c2"
    using w1 n assms(1) by (simp add: wellFormed_def)
  from d show ?thesis
  proof
    assume "\<exists>beneath. capturePile pid (Some beneath) (face crd) (face beneath) ?c2 = Some c'"
    then obtain beneath where
      cp: "capturePile pid (Some beneath) (face crd) (face beneath) ?c2 = Some c'" by blast
    show ?thesis
      using w2 by (subst capturePile_frame [OF cp]) (simp add: wellFormed_def)
  next
    assume "c' = passTurn pid ?c2"
    with w2 show ?thesis by (simp add: passTurn_def wellFormed_def)
  qed
qed

lemma saveUndoState_frame:
  assumes "saveUndoState c = Some c1"
  shows "c1 = c\<lparr>undoState := undoState c1\<rparr>"
    and "undoState c1 =
       \<lparr>us_playerPoint = playerPoint c, us_cpuPoint = cpuPoint c,
        us_lastScorer = lastScorer c,
        us_cardsCollectedByPlayer = cardsCollectedByPlayer c,
        us_cardsCollectedByCPU = cardsCollectedByCPU c,
        us_cardsOnTable = cardsOnTable c,
        us_tableCards = take (nat (cardsOnTable c)) (tableCards c),
        us_playerCards = copy_into (replicate (nat HandSize) None) (playerCards c),
        us_initialHiddenCards = initialHiddenCards c,
        us_safeDiscardCandidate = safeDiscardCandidate c,
        us_isInitialPile = isInitialPile c,
        us_cpuCards = copy_into (replicate (nat HandSize) None) (cpuCards c),
        us_currentHandMemory = take (nat (currentHandMemoryLength c)) (currentHandMemory c),
        us_currentHandMemoryLength = currentHandMemoryLength c\<rparr>"
    and "0 \<le> cardsOnTable c" "cardsOnTable c \<le> int (length (tableCards c))"
    and "0 \<le> currentHandMemoryLength c"
    and "currentHandMemoryLength c \<le> int (length (currentHandMemory c))"
  using assms
  by (auto simp: saveUndoState_def slice_copy_def Let_def split: Option.bind_splits if_splits)

lemma saveUndoState_total:
  assumes "0 \<le> cardsOnTable c" "cardsOnTable c \<le> int (length (tableCards c))"
    and "0 \<le> currentHandMemoryLength c"
    and "currentHandMemoryLength c \<le> int (length (currentHandMemory c))"
  shows "saveUndoState c \<noteq> None"
  using assms by (simp add: saveUndoState_def slice_copy_def Let_def)

lemma playerPlays_cases:
  assumes "playerPlays i c = Some c'"
  shows "\<exists>c1. (if level c \<noteq> LevelAdvanced then saveUndoState c = Some c1 else c1 = c)
           \<and> 0 \<le> i \<and> i < int (length (playerCards c))
           \<and> ((playerCards c ! nat i = None \<and> c' = c1)
               \<or> (\<exists>crd c2. playerCards c ! nat i = Some crd
                    \<and> processTurn (Some crd) Player
                         (c1\<lparr>lastPlayedPlayerCard := i,
                             playerCards := (playerCards c)[nat i := None]\<rparr>) = Some c2
                    \<and> c' = c2\<lparr>isInitialPile := False\<rparr>))"
proof -
  from assms obtain c1 where
    c1: "(if level c \<noteq> LevelAdvanced then saveUndoState c else Some c) = Some c1"
    by (auto simp: playerPlays_def split: Option.bind_splits)
  have pc: "playerCards c1 = playerCards c"
    using c1 arg_cong [OF saveUndoState_frame(1), of c c1 playerCards]
    by (auto split: if_splits)
  from assms c1 obtain p where p: "nth_slot (playerCards c) i = Some p"
    by (auto simp: playerPlays_def pc split: Option.bind_splits)
  note pd = nth_slotD [OF p]
  have s: "set_slot (playerCards c) i None = Some ((playerCards c)[nat i := None])"
    using pd by (simp add: set_slot_def)
  have first: "if level c \<noteq> LevelAdvanced then saveUndoState c = Some c1 else c1 = c"
    using c1 by (auto split: if_splits)
  show ?thesis
  proof (cases p)
    case None
    with assms c1 p pc pd first show ?thesis
      by (auto simp: playerPlays_def)
  next
    case (Some crd)
    from assms c1 p pc s Some obtain c2 where
      c2: "processTurn (Some crd) Player
             (c1\<lparr>lastPlayedPlayerCard := i, playerCards := (playerCards c)[nat i := None]\<rparr>)
           = Some c2"
      and e: "c' = (if isInitialPile c2 then c2\<lparr>isInitialPile := False\<rparr> else c2)"
      by (auto simp: playerPlays_def split: Option.bind_splits)
    have "c' = c2\<lparr>isInitialPile := False\<rparr>"
    proof (cases "isInitialPile c2")
      case True
      with e show ?thesis by simp
    next
      case False
      then have "c2\<lparr>isInitialPile := False\<rparr> = c2" by (cases c2) simp
      with e False show ?thesis by simp
    qed
    with c2 Some pd first show ?thesis by auto
  qed
qed

lemma wellFormed_playerPlays:
  assumes "wellFormed c" "playerPlays i c = Some c'"
  shows "wellFormed c'"
proof -
  from playerPlays_cases [OF assms(2)] obtain c1 where
    f: "if level c \<noteq> LevelAdvanced then saveUndoState c = Some c1 else c1 = c"
    and i: "0 \<le> i" "i < int (length (playerCards c))"
    and d: "(playerCards c ! nat i = None \<and> c' = c1)
            \<or> (\<exists>crd c2. playerCards c ! nat i = Some crd
                 \<and> processTurn (Some crd) Player
                      (c1\<lparr>lastPlayedPlayerCard := i,
                          playerCards := (playerCards c)[nat i := None]\<rparr>) = Some c2
                 \<and> c' = c2\<lparr>isInitialPile := False\<rparr>)"
    by blast
  have w1: "wellFormed c1"
  proof (cases "level c = LevelAdvanced")
    case True
    with f assms(1) show ?thesis by simp
  next
    case False
    with f have sv: "saveUndoState c = Some c1" by simp
    show ?thesis
      using assms(1) saveUndoState_frame(2) [OF sv]
      by (subst saveUndoState_frame(1) [OF sv]) (simp add: wellFormed_def)
  qed
  from d show ?thesis
  proof
    assume "playerCards c ! nat i = None \<and> c' = c1"
    with w1 show ?thesis by simp
  next
    assume "\<exists>crd c2. playerCards c ! nat i = Some crd
                 \<and> processTurn (Some crd) Player
                      (c1\<lparr>lastPlayedPlayerCard := i,
                          playerCards := (playerCards c)[nat i := None]\<rparr>) = Some c2
                 \<and> c' = c2\<lparr>isInitialPile := False\<rparr>"
    then obtain crd c2 where
      pt: "processTurn (Some crd) Player
             (c1\<lparr>lastPlayedPlayerCard := i, playerCards := (playerCards c)[nat i := None]\<rparr>)
           = Some c2"
      and e: "c' = c2\<lparr>isInitialPile := False\<rparr>" by blast
    have "wellFormed (c1\<lparr>lastPlayedPlayerCard := i, playerCards := (playerCards c)[nat i := None]\<rparr>)"
      using w1 assms(1) by (simp add: wellFormed_def)
    then have "wellFormed c2" using pt by (rule wellFormed_processTurn)
    with e show ?thesis by (simp add: wellFormed_def)
  qed
qed

lemma CPUaction_frame:
  assumes "CPUaction c = Some (k, c')"
  shows "c' = c\<lparr>rngPos := rngPos c'\<rparr>"
  using assms
  by (auto simp: CPUaction_def findRandomNonJack_def Intn_def Let_def
      split: Option.bind_splits if_splits prod.splits)

lemma cpuPlays_cases [consumes 1, case_names idle missed played]:
  assumes "cpuPlays c = Some c'"
  obtains (idle) "c' = c"
  | (missed) pos idx where "c' = c\<lparr>rngPos := pos, lastPlayedCPUCardIdx := idx\<rparr>"
  | (played) pos idx crd c4 where "0 \<le> idx" "idx < int (length (cpuCards c))"
      "cpuCards c ! nat idx = Some crd"
      "processTurn (Some crd) CPU
         (c\<lparr>rngPos := pos, lastPlayedCPUCardIdx := idx,
            cpuCards := (cpuCards c)[nat idx := None]\<rparr>) = Some c4"
      "c' = c4\<lparr>canUndo := True\<rparr>"
proof (cases "list_ex (\<lambda>p. p \<noteq> None) (cpuCards c)")
  case False
  with assms have "c' = c" by (simp add: cpuPlays_def)
  then show ?thesis by (rule idle)
next
  case True
  with assms obtain chosen c1 where a: "CPUaction c = Some (chosen, c1)"
    by (auto simp: cpuPlays_def split: Option.bind_splits)
  note f = CPUaction_frame [OF a]
  define pos where "pos = rngPos c1"
  have c1: "c1 = c\<lparr>rngPos := pos\<rparr>" using f by (simp add: pos_def)
  from assms True a obtain c3 where
    c3: "(if chosen = - 1 then do {
                 idx \<leftarrow> anyValidCard (cpuCards c) 0 chosen;
                 Some (c1\<lparr>lastPlayedCPUCardIdx := idx\<rparr>)
               } else Some (c1\<lparr>lastPlayedCPUCardIdx := chosen\<rparr>)) = Some c3"
    and rest: "do {
        cpuPlayedCard \<leftarrow> nth_slot (cpuCards c3) (lastPlayedCPUCardIdx c3);
        (case cpuPlayedCard of
           None \<Rightarrow> Some c3
         | Some _ \<Rightarrow> do {
             cc \<leftarrow> set_slot (cpuCards c3) (lastPlayedCPUCardIdx c3) None;
             c4 \<leftarrow> processTurn cpuPlayedCard CPU (c3\<lparr>cpuCards := cc\<rparr>);
             Some (c4\<lparr>canUndo := True\<rparr>)
           })
      } = Some c'"
    by (auto simp: cpuPlays_def Let_def c1 split: Option.bind_splits if_splits)
  from c3 obtain idx where c3': "c3 = c\<lparr>rngPos := pos, lastPlayedCPUCardIdx := idx\<rparr>"
    by (auto simp: c1 split: if_splits Option.bind_splits)
  from rest obtain p where p: "nth_slot (cpuCards c) idx = Some p"
    by (auto simp: c3' split: Option.bind_splits)
  note pd = nth_slotD [OF p]
  have s: "set_slot (cpuCards c) idx None = Some ((cpuCards c)[nat idx := None])"
    using pd by (simp add: set_slot_def)
  show ?thesis
  proof (cases p)
    case None
    have "c' = c\<lparr>rngPos := pos, lastPlayedCPUCardIdx := idx\<rparr>"
      using rest p None by (simp add: c3')
    then show ?thesis by (rule missed)
  next
    case (Some crd)
    with rest p s obtain c4 where
      pt: "processTurn (Some crd) CPU
         (c\<lparr>rngPos := pos, lastPlayedCPUCardIdx := idx,
            cpuCards := (cpuCards c)[nat idx := None]\<rparr>) = Some c4"
      and e: "c' = c4\<lparr>canUndo := True\<rparr>"
      by (auto simp: c3' split: Option.bind_splits)
    have "cpuCards c ! nat idx = Some crd" using pd Some by simp
    with pd show ?thesis using pt e by (intro played [of idx crd pos c4]) simp_all
  qed
qed

lemma wellFormed_cpuPlays:
  assumes "wellFormed c" "cpuPlays c = Some c'"
  shows "wellFormed c'"
  using assms(2)
proof (cases rule: cpuPlays_cases)
  case idle
  with assms(1) show ?thesis by simp
next
  case (missed pos idx)
  with assms(1) show ?thesis by (simp add: wellFormed_def)
next
  case (played pos idx crd c4)
  have "wellFormed (c\<lparr>rngPos := pos, lastPlayedCPUCardIdx := idx,
                   cpuCards := (cpuCards c)[nat idx := None]\<rparr>)"
    using assms(1) by (simp add: wellFormed_def)
  then have "wellFormed c4" using played(4) by (rule wellFormed_processTurn)
  with played(5) show ?thesis by (simp add: wellFormed_def)
qed

lemma wellFormed_finalizeCapture: "wellFormed c \<Longrightarrow> wellFormed (finalizeCapture c)"
  by (simp add: finalizeCapture_def wellFormed_def Let_def)

lemma wellFormed_checkEndOfHand:
  assumes "wellFormed c" "checkEndOfHand c = Some c'"
  shows "wellFormed c'"
proof -
  have eog: "wellFormed d'" if "handleEndOfGame c = Some d'" for d'
    using that assms(1)
    by (auto simp: handleEndOfGame_def awardFinalPile_def wellFormed_def Let_def
        split: Option.bind_splits if_splits)
  have eoh: "wellFormed d'" if "handleEndOfHand c = Some d'" for d'
  proof -
    from that obtain d where d: "deal c = Some d" and e: "d' = d\<lparr>gameState := StatePlayerTurn\<rparr>"
      by (auto simp: handleEndOfHand_def split: Option.bind_splits)
    have "wellFormed d" using assms(1) d by (rule wellFormed_deal)
    with e show ?thesis by (simp add: wellFormed_def)
  qed
  from assms eog eoh show ?thesis
    by (auto simp: checkEndOfHand_def split: if_splits)
qed

lemma length_copy_into: "length (copy_into dst src) = length dst"
  by (simp add: copy_into_def)

lemma nilOut_length: "nilOut xs i = Some ys \<Longrightarrow> length ys = length xs"
proof (induction xs i rule: nilOut.induct)
  case (1 xs i)
  then show ?case
    by (subst (asm) (2) nilOut.simps) (auto split: if_splits option.splits)
qed

lemma wellFormed_undoImplementation:
  assumes "wellFormed c" "undoImplementation c = Some (ok, c')"
  shows "wellFormed c'"
proof (cases "canUndo c")
  case False
  with assms show ?thesis by (simp add: undoImplementation_def)
next
  case True
  with assms(2) obtain tc hm where
    tc: "nilOut (copy_into (tableCards c) (us_tableCards (undoState c)))
           (us_cardsOnTable (undoState c)) = Some tc"
    and hm: "nilOut (copy_into (currentHandMemory c) (us_currentHandMemory (undoState c)))
           (us_currentHandMemoryLength (undoState c)) = Some hm"
    and e: "cardsOnTable c' = us_cardsOnTable (undoState c)"
      "currentHandMemoryLength c' = us_currentHandMemoryLength (undoState c)"
      "tableCards c' = tc" "currentHandMemory c' = hm"
      "playerCards c' = copy_into (playerCards c) (us_playerCards (undoState c))"
      "cpuCards c' = copy_into (cpuCards c) (us_cpuCards (undoState c))"
      "allPlayedCardsMemory c' = allPlayedCardsMemory c" "deck c' = deck c"
      "undoState c' = undoState c"
    by (auto simp: undoImplementation_def Let_def split: Option.bind_splits)
  show ?thesis
    using assms(1) e nilOut_length [OF tc] nilOut_length [OF hm]
    by (simp add: wellFormed_def length_copy_into)
qed

lemma wellFormed_NewCasino: "wellFormed (NewCasino r)"
  by (simp add: NewCasino_def wellFormed_def zeroUndoState_def HandSize_def DeckSize_def)

lemma wellFormed_SetLevel: "wellFormed c \<Longrightarrow> wellFormed (SetLevel l c)"
  by (simp add: SetLevel_def wellFormed_def)

lemma reachable_wellFormed: "reachable c \<Longrightarrow> wellFormed c"
proof (induction rule: reachable.induct)
  case (fresh r)
  show ?case by (rule wellFormed_NewCasino)
next
  case (set_level c l)
  then show ?case by (simp add: wellFormed_SetLevel)
next
  case (start_game c ok c')
  then show ?case using wellFormed_StartGame by blast
next
  case (reset_game c c')
  then show ?case using wellFormed_resetGameInternal by (simp add: ResetGame_def)
next
  case (player_plays c i c')
  then show ?case using wellFormed_playerPlays by blast
next
  case (computer_plays c c')
  then show ?case using wellFormed_cpuPlays by blast
next
  case (finalize_capture c)
  then show ?case by (simp add: wellFormed_finalizeCapture)
next
  case (check_end_of_hand c c')
  then show ?case using wellFormed_checkEndOfHand by blast
next
  case (undo c ok c')
  then show ?case using wellFormed_undoImplementation by blast
qed

section \<open>Starting without a level, playing a slot\<close>

lemma for_loop_total_range:
  "P s \<Longrightarrow> lo \<le> i \<Longrightarrow> (\<And>j t. lo \<le> j \<Longrightarrow> j < n \<Longrightarrow> P t \<Longrightarrow> \<exists>t'. body j t = Some t' \<and> P t')
   \<Longrightarrow> \<exists>s'. for_loop i n body s = Some s' \<and> P s'"
proof (induction i n body s rule: for_loop.induct)
  case (1 i n body s)
  show ?case
  proof (cases "i < n")
    case False
    with "1.prems" show ?thesis by (simp add: for_loop.simps [of i n body s])
  next
    case True
    from "1.prems"(3) [OF "1.prems"(2) True "1.prems"(1)]
    obtain t where b: "body i s = Some t" and p: "P t" by blast
    have le: "lo \<le> i + 1" using "1.prems"(2) by simp
    have "\<exists>s'. for_loop (i + 1) n body t = Some s' \<and> P s'"
      by (rule "1.IH" [OF True b p le]) (rule "1.prems"(3))
    with True b show ?thesis
      by (simp add: for_loop.simps [of i n body s])
  qed
qed

lemma resetGameInternal_total:
  assumes "wellFormed c"
  shows "\<exists>c'. resetGameInternal c = Some c' \<and> level c' = LevelNotSelected
           \<and> gameState c' = StateNotStarted"
proof -
  let ?c1 = "c\<lparr>gameState := StateNotStarted,
                level := LevelNotSelected,
                cardsCollectedByPlayer := 0,
                cardsCollectedByCPU := 0,
                cardsOnTable := 0,
                currentHandMemoryLength := 0,
                allPlayedCardsMemoryLength := 0\<rparr>"
  have p1: "resetShape ?c1" using assms by (simp add: resetShape_def wellFormed_def)
  have len1: "int (length (allPlayedCardsMemory ?c1)) = 52"
    using assms by (simp add: wellFormed_def)
  have "\<exists>c2. for_loop 0 (int (length (allPlayedCardsMemory ?c1))) clearAllPlayed_step ?c1 = Some c2
          \<and> resetShape c2"
    unfolding len1
  proof (rule for_loop_total_range [where P = resetShape and lo = 0, OF p1])
    fix j :: int and t
    assume "0 \<le> j" "j < 52" "resetShape t"
    then show "\<exists>t'. clearAllPlayed_step j t = Some t' \<and> resetShape t'"
      by (simp add: clearAllPlayed_step_def set_slot_def resetShape_def wellFormed_def)
  qed simp
  then obtain c2 where
    c2: "for_loop 0 (int (length (allPlayedCardsMemory ?c1))) clearAllPlayed_step ?c1 = Some c2"
    and p2: "resetShape c2" by blast
  let ?c3 = "c2\<lparr>cpuPoint := 0, playerPoint := 0, lastPlayedCPUCardIdx := - 1,
                 lastPlayedPlayerCard := - 1, lastScorer := NoPlayer, isInitialPile := False,
                 canUndo := False, currentCard := 0, safeDiscardCandidate := None,
                 initialHiddenCards := None, initialPileCaptureMsg := []\<rparr>"
  have p3: "resetShape ?c3" using p2 by (simp add: resetShape_def wellFormed_def)
  have "\<exists>c4. for_loop 0 HandSize resetHands_step ?c3 = Some c4 \<and> resetShape c4"
  proof (rule for_loop_total_range [where P = resetShape and lo = 0, OF p3])
    fix j :: int and t
    assume "0 \<le> j" "j < HandSize" "resetShape t"
    then show "\<exists>t'. resetHands_step j t = Some t' \<and> resetShape t'"
      by (simp add: resetHands_step_def set_slot_def resetShape_def wellFormed_def HandSize_def)
  qed simp
  then obtain c4 where c4: "for_loop 0 HandSize resetHands_step ?c3 = Some c4"
    and p4: "resetShape c4" by blast
  have "\<exists>c5. for_loop 0 DeckSize resetPiles_step c4 = Some c5 \<and> resetShape c5"
  proof (rule for_loop_total_range [where P = resetShape and lo = 0, OF p4])
    fix j :: int and t
    assume "0 \<le> j" "j < DeckSize" "resetShape t"
    then show "\<exists>t'. resetPiles_step j t = Some t' \<and> resetShape t'"
      by (simp add: resetPiles_step_def set_slot_def resetShape_def wellFormed_def DeckSize_def)
  qed simp
  then obtain c5 where c5: "for_loop 0 DeckSize resetPiles_step c4 = Some c5"
    and p5: "resetShape c5" by blast
  have "resetGameInternal c = Some c5"
    using c2 c4 c5 by (simp add: resetGameInternal_def Let_def)
  with p5 show ?thesis by (simp add: resetShape_def)
qed

text \<open>
  C9, as the code has it. In a reachable state with no level chosen \<open>StartGame\<close> returns
  false. It leaves the state unchanged when no game has been started; when a game is in
  progress or over it first resets the engine, and the state it leaves is the reset one.
\<close>

theorem StartGame_without_level:
  assumes "reachable c" and "level c = LevelNotSelected"
  shows "\<exists>c'. StartGame c = Some (False, c')
           \<and> (if gameState c = StateNotStarted then c' = c else resetGameInternal c = Some c')"
proof (cases "gameState c = StateNotStarted")
  case True
  with assms(2) show ?thesis by (simp add: StartGame_def)
next
  case False
  from resetGameInternal_total [OF reachable_wellFormed [OF assms(1)]]
  obtain c' where "resetGameInternal c = Some c'" "level c' = LevelNotSelected" by blast
  with False show ?thesis by (simp add: StartGame_def)
qed

text \<open>
  C10, as the code has it. In a reachable state \<open>playerPlays\<close> with an index from 0 to 3
  whose slot is empty returns normally; the index itself is not checked, and an index
  below 0 or above 3 panics with an index out of range.
\<close>

theorem playerPlays_slot_check:
  assumes "reachable c"
  shows "(0 \<le> i \<and> i < 4 \<and> playerCards c ! nat i = None \<longrightarrow> (\<exists>c'. playerPlays i c = Some c'))
         \<and> (i < 0 \<or> 4 \<le> i \<longrightarrow> playerPlays i c = None)"
proof -
  note w = reachable_wellFormed [OF assms]
  have len: "length (playerCards c) = 4" using w by (simp add: wellFormed_def)
  have "saveUndoState c \<noteq> None"
    using w by (intro saveUndoState_total) (simp_all add: wellFormed_def)
  then obtain c1 where sv: "saveUndoState c = Some c1" by blast
  have pc: "playerCards c1 = playerCards c"
    using arg_cong [OF saveUndoState_frame(1) [OF sv], of playerCards] by simp
  show ?thesis
    using len sv pc by (auto simp: playerPlays_def nth_slot_def)
qed

section \<open>Undo restores the snapshot\<close>

lemma processTurn_frame:
  assumes "processTurn (Some crd) pid c = Some c'"
  shows "c' = c\<lparr>currentHandMemory := currentHandMemory c',
                 currentHandMemoryLength := currentHandMemoryLength c',
                 allPlayedCardsMemory := allPlayedCardsMemory c',
                 allPlayedCardsMemoryLength := allPlayedCardsMemoryLength c',
                 tableCards := tableCards c',
                 cardsOnTable := cardsOnTable c',
                 safeDiscardCandidate := safeDiscardCandidate c',
                 initialHiddenCards := initialHiddenCards c',
                 initialPileCaptureMsg := initialPileCaptureMsg c',
                 playerPoint := playerPoint c',
                 cpuPoint := cpuPoint c',
                 cardsCollectedByPlayer := cardsCollectedByPlayer c',
                 cardsCollectedByCPU := cardsCollectedByCPU c',
                 gameState := gameState c',
                 lastScorer := lastScorer c'\<rparr>"
proof -
  from processTurn_cases [OF assms] obtain c1 where
    r: "rememberPlayed (Some crd) c = Some c1"
    and d: "(\<exists>beneath. capturePile pid (Some beneath) (face crd) (face beneath)
                          (c1\<lparr>tableCards := (tableCards c)[nat (cardsOnTable c) := Some crd],
                              cardsOnTable := cardsOnTable c + 1\<rparr>) = Some c')
            \<or> c' = passTurn pid (c1\<lparr>tableCards := (tableCards c)[nat (cardsOnTable c) := Some crd],
                                        cardsOnTable := cardsOnTable c + 1\<rparr>)"
    by blast
  note fr = rememberPlayed_frame [OF r]
  from d show ?thesis
  proof
    assume "\<exists>beneath. capturePile pid (Some beneath) (face crd) (face beneath)
                          (c1\<lparr>tableCards := (tableCards c)[nat (cardsOnTable c) := Some crd],
                              cardsOnTable := cardsOnTable c + 1\<rparr>) = Some c'"
    then obtain beneath where cp: "capturePile pid (Some beneath) (face crd) (face beneath)
                          (c1\<lparr>tableCards := (tableCards c)[nat (cardsOnTable c) := Some crd],
                              cardsOnTable := cardsOnTable c + 1\<rparr>) = Some c'" by blast
    show ?thesis
      using fr capturePile_frame [OF cp] by (cases c; cases c1; cases c') simp
  next
    assume "c' = passTurn pid (c1\<lparr>tableCards := (tableCards c)[nat (cardsOnTable c) := Some crd],
                                        cardsOnTable := cardsOnTable c + 1\<rparr>)"
    then show ?thesis
      using fr by (cases c; cases c1; cases c') (simp add: passTurn_def split: if_splits)
  qed
qed

lemma processTurn_table:
  assumes "processTurn (Some crd) pid c = Some c'"
  shows "tableCards c' = (tableCards c)[nat (cardsOnTable c) := Some crd]"
    and "cardsOnTable c' = cardsOnTable c + 1"
    and "0 \<le> cardsOnTable c" and "cardsOnTable c < int (length (tableCards c))"
proof -
  from processTurn_cases [OF assms] obtain c1 where
    n: "0 \<le> cardsOnTable c" "cardsOnTable c < int (length (tableCards c))"
    and d: "(\<exists>beneath. capturePile pid (Some beneath) (face crd) (face beneath)
                          (c1\<lparr>tableCards := (tableCards c)[nat (cardsOnTable c) := Some crd],
                              cardsOnTable := cardsOnTable c + 1\<rparr>) = Some c')
            \<or> c' = passTurn pid (c1\<lparr>tableCards := (tableCards c)[nat (cardsOnTable c) := Some crd],
                                        cardsOnTable := cardsOnTable c + 1\<rparr>)"
    by blast
  show "0 \<le> cardsOnTable c" "cardsOnTable c < int (length (tableCards c))" by fact+
  from d have "tableCards c' = (tableCards c)[nat (cardsOnTable c) := Some crd]
               \<and> cardsOnTable c' = cardsOnTable c + 1"
  proof
    assume "\<exists>beneath. capturePile pid (Some beneath) (face crd) (face beneath)
                          (c1\<lparr>tableCards := (tableCards c)[nat (cardsOnTable c) := Some crd],
                              cardsOnTable := cardsOnTable c + 1\<rparr>) = Some c'"
    then obtain beneath where cp: "capturePile pid (Some beneath) (face crd) (face beneath)
                          (c1\<lparr>tableCards := (tableCards c)[nat (cardsOnTable c) := Some crd],
                              cardsOnTable := cardsOnTable c + 1\<rparr>) = Some c'" by blast
    show ?thesis
      using arg_cong [OF capturePile_frame [OF cp], of tableCards]
        arg_cong [OF capturePile_frame [OF cp], of cardsOnTable] by simp
  next
    assume "c' = passTurn pid (c1\<lparr>tableCards := (tableCards c)[nat (cardsOnTable c) := Some crd],
                                        cardsOnTable := cardsOnTable c + 1\<rparr>)"
    then show ?thesis by (simp add: passTurn_def)
  qed
  then show "tableCards c' = (tableCards c)[nat (cardsOnTable c) := Some crd]"
    and "cardsOnTable c' = cardsOnTable c + 1" by simp_all
qed

lemma rememberPlayed_memory:
  assumes "rememberPlayed p c = Some c1"
  shows "length (currentHandMemory c1) = length (currentHandMemory c)
         \<and> take (nat (currentHandMemoryLength c)) (currentHandMemory c1)
             = take (nat (currentHandMemoryLength c)) (currentHandMemory c)"
  using assms
  by (auto simp: rememberPlayed_def dest!: set_slotD
      split: GameLevel.splits if_splits Option.bind_splits)

lemma processTurn_memory:
  assumes "processTurn (Some crd) pid c = Some c'"
  shows "length (currentHandMemory c') = length (currentHandMemory c)
         \<and> take (nat (currentHandMemoryLength c)) (currentHandMemory c')
             = take (nat (currentHandMemoryLength c)) (currentHandMemory c)"
proof -
  from processTurn_cases [OF assms] obtain c1 where
    r: "rememberPlayed (Some crd) c = Some c1"
    and d: "(\<exists>beneath. capturePile pid (Some beneath) (face crd) (face beneath)
                          (c1\<lparr>tableCards := (tableCards c)[nat (cardsOnTable c) := Some crd],
                              cardsOnTable := cardsOnTable c + 1\<rparr>) = Some c')
            \<or> c' = passTurn pid (c1\<lparr>tableCards := (tableCards c)[nat (cardsOnTable c) := Some crd],
                                        cardsOnTable := cardsOnTable c + 1\<rparr>)"
    by blast
  from d have "currentHandMemory c' = currentHandMemory c1"
  proof
    assume "\<exists>beneath. capturePile pid (Some beneath) (face crd) (face beneath)
                          (c1\<lparr>tableCards := (tableCards c)[nat (cardsOnTable c) := Some crd],
                              cardsOnTable := cardsOnTable c + 1\<rparr>) = Some c'"
    then obtain beneath where cp: "capturePile pid (Some beneath) (face crd) (face beneath)
                          (c1\<lparr>tableCards := (tableCards c)[nat (cardsOnTable c) := Some crd],
                              cardsOnTable := cardsOnTable c + 1\<rparr>) = Some c'" by blast
    show ?thesis
      using arg_cong [OF capturePile_frame [OF cp], of currentHandMemory] by simp
  next
    assume "c' = passTurn pid (c1\<lparr>tableCards := (tableCards c)[nat (cardsOnTable c) := Some crd],
                                        cardsOnTable := cardsOnTable c + 1\<rparr>)"
    then show ?thesis by (simp add: passTurn_def)
  qed
  with rememberPlayed_memory [OF r] show ?thesis by simp
qed

lemma nilOut_prefix: "nilOut xs i = Some ys \<Longrightarrow> 0 \<le> i \<Longrightarrow> take (nat i) ys = take (nat i) xs"
proof (induction xs i rule: nilOut.induct)
  case (1 xs i)
  show ?case
  proof (cases "i < int (length xs)")
    case False
    with "1.prems" show ?thesis by (simp add: nilOut.simps [of xs i])
  next
    case True
    then have s: "nth_slot xs i = Some (xs ! nat i)" using "1.prems"(2) by (simp add: nth_slot_def)
    show ?thesis
    proof (cases "xs ! nat i")
      case None
      with True s "1.prems" show ?thesis by (simp add: nilOut.simps [of xs i])
    next
      case (Some x)
      with True s "1.prems" have rec: "nilOut (xs[nat i := None]) (i + 1) = Some ys"
        by (simp add: nilOut.simps [of xs i])
      have "take (nat (i + 1)) ys = take (nat (i + 1)) (xs[nat i := None])"
        using "1.IH" [OF True s Some rec] "1.prems"(2) by simp
      then have "take (nat i) (take (nat (i + 1)) ys)
                 = take (nat i) (take (nat (i + 1)) (xs[nat i := None]))" by simp
      moreover have "nat i \<le> nat (i + 1)" by simp
      ultimately show ?thesis by (simp add: min_def)
    qed
  qed
qed

lemma nilOut_total: "0 \<le> i \<Longrightarrow> nilOut xs i \<noteq> None"
proof (induction xs i rule: nilOut.induct)
  case (1 xs i)
  show ?case
  proof (cases "i < int (length xs)")
    case False
    then show ?thesis by (simp add: nilOut.simps [of xs i])
  next
    case True
    then have s: "nth_slot xs i = Some (xs ! nat i)" using "1.prems" by (simp add: nth_slot_def)
    show ?thesis
    proof (cases "xs ! nat i")
      case None
      with True s show ?thesis by (simp add: nilOut.simps [of xs i])
    next
      case (Some x)
      have "nilOut (xs[nat i := None]) (i + 1) \<noteq> None"
        using "1.IH" [OF True s Some] "1.prems" by simp
      with True s Some show ?thesis by (simp add: nilOut.simps [of xs i])
    qed
  qed
qed

lemma copy_into_same_length: "length src = length dst \<Longrightarrow> copy_into dst src = src"
  by (simp add: copy_into_def)

lemma copy_into_prefix:
  "n \<le> length dst \<Longrightarrow> length src = n \<Longrightarrow> take n (copy_into dst src) = src"
  by (simp add: copy_into_def)

text \<open>
  What undo does after a human move that has returned: where undo was allowed before the
  move it installs the snapshot the move took, and a second undo is refused; where it was
  not allowed it is refused.
\<close>

lemma undo_restores_move:
  assumes reach: "reachable c"
    and lvl: "level c \<noteq> LevelAdvanced"
    and slot: "0 \<le> i" "i < 4" "playerCards c ! nat i = Some crd"
    and play: "playerPlays i c = Some c1"
  shows "if canUndo c
         then \<exists>c2. undoImplementation c1 = Some (True, c2)
                \<and> playerCards c2 = playerCards c \<and> cpuCards c2 = cpuCards c
                \<and> cardsOnTable c2 = cardsOnTable c
                \<and> take (nat (cardsOnTable c)) (tableCards c2)
                    = take (nat (cardsOnTable c)) (tableCards c)
                \<and> playerPoint c2 = playerPoint c \<and> cpuPoint c2 = cpuPoint c
                \<and> cardsCollectedByPlayer c2 = cardsCollectedByPlayer c
                \<and> cardsCollectedByCPU c2 = cardsCollectedByCPU c
                \<and> currentHandMemoryLength c2 = currentHandMemoryLength c
                \<and> take (nat (currentHandMemoryLength c)) (currentHandMemory c2)
                    = take (nat (currentHandMemoryLength c)) (currentHandMemory c)
                \<and> undoImplementation c2 = Some (False, c2)
         else undoImplementation c1 = Some (False, c1)"
proof -
  note w = reachable_wellFormed [OF reach]
  from w have len: "length (playerCards c) = 4" "length (cpuCards c) = 4"
    "length (tableCards c) = 52" "length (currentHandMemory c) = 52"
    and rng: "0 \<le> cardsOnTable c" "cardsOnTable c \<le> 52"
      "0 \<le> currentHandMemoryLength c" "currentHandMemoryLength c \<le> 52"
    by (simp_all add: wellFormed_def)
  from playerPlays_cases [OF play] lvl slot(3) obtain s1 c2' where
    sv: "saveUndoState c = Some s1"
    and pt: "processTurn (Some crd) Player
               (s1\<lparr>lastPlayedPlayerCard := i, playerCards := (playerCards c)[nat i := None]\<rparr>)
             = Some c2'"
    and c1: "c1 = c2'\<lparr>isInitialPile := False\<rparr>"
    by auto
  note sf = saveUndoState_frame(1) [OF sv]
  note su = saveUndoState_frame(2) [OF sv]
  let ?s2 = "s1\<lparr>lastPlayedPlayerCard := i, playerCards := (playerCards c)[nat i := None]\<rparr>"
  note pf = processTurn_frame [OF pt]
  have s1_fields: "tableCards s1 = tableCards c" "cardsOnTable s1 = cardsOnTable c"
    "currentHandMemory s1 = currentHandMemory c"
    "currentHandMemoryLength s1 = currentHandMemoryLength c"
    "cpuCards s1 = cpuCards c" "canUndo s1 = canUndo c"
    using arg_cong [OF sf, of tableCards] arg_cong [OF sf, of cardsOnTable]
      arg_cong [OF sf, of currentHandMemory] arg_cong [OF sf, of currentHandMemoryLength]
      arg_cong [OF sf, of cpuCards] arg_cong [OF sf, of canUndo]
    by simp_all
  have c1_fields: "undoState c1 = undoState s1" "canUndo c1 = canUndo c"
    "cpuCards c1 = cpuCards c" "playerCards c1 = (playerCards c)[nat i := None]"
    using arg_cong [OF pf, of undoState] arg_cong [OF pf, of canUndo]
      arg_cong [OF pf, of cpuCards] arg_cong [OF pf, of playerCards] s1_fields
    by (simp_all add: c1)
  have tab: "tableCards c1 = (tableCards c)[nat (cardsOnTable c) := Some crd]"
    using processTurn_table(1) [OF pt] s1_fields by (simp add: c1)
  have mem: "length (currentHandMemory c1) = 52"
    "take (nat (currentHandMemoryLength c)) (currentHandMemory c1)
       = take (nat (currentHandMemoryLength c)) (currentHandMemory c)"
    using processTurn_memory [OF pt] s1_fields len by (simp_all add: c1)
  show ?thesis
  proof (cases "canUndo c")
    case False
    then show ?thesis using c1_fields by (simp add: undoImplementation_def)
  next
    case True
    let ?u = "undoState s1"
    let ?t0 = "copy_into (tableCards c1) (us_tableCards ?u)"
    have n: "nat (cardsOnTable c) \<le> 52" using rng by simp
    have m: "nat (currentHandMemoryLength c) \<le> 52" using rng by simp
    from nilOut_total [of "us_cardsOnTable ?u" ?t0] rng
    obtain tc where tc: "nilOut ?t0 (us_cardsOnTable ?u) = Some tc" by (auto simp: su)
    let ?m0 = "copy_into (currentHandMemory c1) (us_currentHandMemory ?u)"
    from nilOut_total [of "us_currentHandMemoryLength ?u" ?m0] rng
    obtain hm where hm: "nilOut ?m0 (us_currentHandMemoryLength ?u) = Some hm"
      by (auto simp: su)
    have tcp: "take (nat (cardsOnTable c)) tc = take (nat (cardsOnTable c)) (tableCards c)"
    proof -
      have "take (nat (cardsOnTable c)) tc = take (nat (cardsOnTable c)) ?t0"
        using nilOut_prefix [OF tc] rng by (simp add: su)
      also have "\<dots> = take (nat (cardsOnTable c)) (tableCards c)"
        using n len by (simp add: su tab copy_into_prefix)
      finally show ?thesis .
    qed
    have hmp: "take (nat (currentHandMemoryLength c)) hm
                 = take (nat (currentHandMemoryLength c)) (currentHandMemory c)"
    proof -
      have "take (nat (currentHandMemoryLength c)) hm = take (nat (currentHandMemoryLength c)) ?m0"
        using nilOut_prefix [OF hm] rng by (simp add: su)
      also have "\<dots> = take (nat (currentHandMemoryLength c)) (currentHandMemory c)"
        using m len mem by (simp add: su copy_into_prefix)
      finally show ?thesis .
    qed
    have hands: "copy_into (playerCards c1) (us_playerCards ?u) = playerCards c"
      "copy_into (cpuCards c1) (us_cpuCards ?u) = cpuCards c"
      using len by (simp_all add: su c1_fields copy_into_same_length HandSize_def)
    define c2 where "c2 = snd (the (undoImplementation c1))"
    have un: "undoImplementation c1 = Some (True, c2)"
      and f: "playerCards c2 = playerCards c" "cpuCards c2 = cpuCards c"
        "cardsOnTable c2 = cardsOnTable c" "tableCards c2 = tc"
        "playerPoint c2 = playerPoint c" "cpuPoint c2 = cpuPoint c"
        "cardsCollectedByPlayer c2 = cardsCollectedByPlayer c"
        "cardsCollectedByCPU c2 = cardsCollectedByCPU c"
        "currentHandMemoryLength c2 = currentHandMemoryLength c"
        "currentHandMemory c2 = hm" "canUndo c2 = False"
      unfolding c2_def using True c1_fields tc hm hands
      by (simp_all add: undoImplementation_def Let_def su)
    have "undoImplementation c2 = Some (False, c2)"
      using f by (simp add: undoImplementation_def)
    with True un f tcp hmp show ?thesis by simp
  qed
qed

section \<open>Plays do not read the game state\<close>

lemma rememberPlayed_gameState:
  "rememberPlayed p (c\<lparr>gameState := g\<rparr>) = map_option (gameState_update (\<lambda>_. g)) (rememberPlayed p c)"
  by (simp add: rememberPlayed_def split: GameLevel.splits Option.bind_splits)

lemma captureAward_updates:
  "captureAward tf sf (d\<lparr>gameState := g\<rparr>) = captureAward tf sf d"
  "captureAward tf sf (d\<lparr>safeDiscardCandidate := sd\<rparr>) = captureAward tf sf d"
  "captureAward tf sf (d\<lparr>initialHiddenCards := ih\<rparr>) = captureAward tf sf d"
  "captureAward tf sf (d\<lparr>initialPileCaptureMsg := msg\<rparr>) = captureAward tf sf d"
  by (simp_all add: captureAward_def pointCalculator_def)

lemma capturePile_gameState:
  "capturePile pid second tf sf (c\<lparr>gameState := g\<rparr>) = capturePile pid second tf sf c"
proof (cases "initialHiddenCards c")
  case None
  then show ?thesis
    by (cases "captureAward tf sf c")
      (auto simp: capturePile_def Let_def captureAward_updates)
next
  case (Some h)
  then show ?thesis
    by (cases "captureAward tf sf c"; cases "hiddenCardsMsg h")
      (auto simp: capturePile_def Let_def captureAward_updates)
qed

lemma passTurn_gameState: "passTurn pid (c\<lparr>gameState := g\<rparr>) = passTurn pid c"
  by (simp add: passTurn_def)

lemma processTurn_gameState:
  "processTurn (Some crd) pid (c\<lparr>gameState := g\<rparr>) = processTurn (Some crd) pid c"
proof (cases "rememberPlayed (Some crd) c")
  case None
  then show ?thesis by (simp add: processTurn_def rememberPlayed_gameState)
next
  case (Some c1)
  show ?thesis
  proof (cases "set_slot (tableCards c1) (cardsOnTable c1) (Some crd)")
    case None
    with Some show ?thesis by (simp add: processTurn_def rememberPlayed_gameState)
  next
    case (Some tc)
    have a: "c1\<lparr>gameState := g, tableCards := tc, cardsOnTable := cardsOnTable c1 + 1\<rparr>
             = (c1\<lparr>tableCards := tc, cardsOnTable := cardsOnTable c1 + 1\<rparr>)\<lparr>gameState := g\<rparr>"
      by simp
    show ?thesis
      using \<open>rememberPlayed (Some crd) c = Some c1\<close> Some
      by (simp add: processTurn_def rememberPlayed_gameState Let_def a
          capturePile_gameState passTurn_gameState del: Casino.update_convs
          split: Option.bind_splits)
  qed
qed

lemma saveUndoState_gameState:
  "saveUndoState (c\<lparr>gameState := g\<rparr>) = map_option (gameState_update (\<lambda>_. g)) (saveUndoState c)"
  by (simp add: saveUndoState_def Let_def split: Option.bind_splits)

lemma playerPlays_gameState:
  "playerPlays i (c\<lparr>gameState := g\<rparr>)
     = map_option (\<lambda>c'. if playerCards c' = playerCards c then c'\<lparr>gameState := g\<rparr> else c')
         (playerPlays i c)"
proof -
  let ?pre = "if level c \<noteq> LevelAdvanced then saveUndoState c else Some c"
  have pre_g: "(if level (c\<lparr>gameState := g\<rparr>) \<noteq> LevelAdvanced
                then saveUndoState (c\<lparr>gameState := g\<rparr>) else Some (c\<lparr>gameState := g\<rparr>))
               = map_option (gameState_update (\<lambda>_. g)) ?pre"
    by (simp add: saveUndoState_gameState)
  show ?thesis
  proof (cases ?pre)
    case None
    then show ?thesis
      using pre_g unfolding playerPlays_def by (simp del: Casino.update_convs)
  next
    case (Some c1)
    have pc: "playerCards c1 = playerCards c"
      using Some arg_cong [OF saveUndoState_frame(1), of c c1 playerCards]
      by (auto split: if_splits)
    show ?thesis
    proof (cases "nth_slot (playerCards c) i")
      case None
      with Some pc show ?thesis
        using pre_g unfolding playerPlays_def by simp
    next
      case slot: (Some p)
      note pd = nth_slotD [OF slot]
      have s: "set_slot (playerCards c) i None = Some ((playerCards c)[nat i := None])"
        using pd by (simp add: set_slot_def)
      show ?thesis
      proof (cases p)
        case None
        with Some pc slot show ?thesis
          using pre_g unfolding playerPlays_def by simp
      next
        case held: (Some crd)
        let ?s2 = "c1\<lparr>lastPlayedPlayerCard := i, playerCards := (playerCards c)[nat i := None]\<rparr>"
        have ne: "(playerCards c)[nat i := None] \<noteq> playerCards c"
        proof
          assume "(playerCards c)[nat i := None] = playerCards c"
          then have "(playerCards c)[nat i := None] ! nat i = playerCards c ! nat i" by simp
          moreover have "nat i < length (playerCards c)" using pd by linarith
          ultimately show False using pd held by simp
        qed
        have lhs: "playerPlays i (c\<lparr>gameState := g\<rparr>)
                   = map_option (\<lambda>c2. if isInitialPile c2 then c2\<lparr>isInitialPile := False\<rparr> else c2)
                       (processTurn (Some crd) Player ?s2)"
        proof -
          have pg: "processTurn (Some crd) Player
                      (c1\<lparr>gameState := g, lastPlayedPlayerCard := i,
                          playerCards := (playerCards c)[nat i := None]\<rparr>)
                    = processTurn (Some crd) Player ?s2"
          proof -
            have eq: "c1\<lparr>gameState := g, lastPlayedPlayerCard := i,
                        playerCards := (playerCards c)[nat i := None]\<rparr> = ?s2\<lparr>gameState := g\<rparr>"
              by simp
            show ?thesis by (subst eq) (rule processTurn_gameState)
          qed
          show ?thesis
            using Some pc slot held s pre_g
            unfolding playerPlays_def
            by (cases "processTurn (Some crd) Player ?s2") (simp_all add: pg)
        qed
        have rhs: "playerPlays i c
                   = map_option (\<lambda>c2. if isInitialPile c2 then c2\<lparr>isInitialPile := False\<rparr> else c2)
                       (processTurn (Some crd) Player ?s2)"
          using Some pc slot held s unfolding playerPlays_def
          by (cases "processTurn (Some crd) Player ?s2") simp_all
        show ?thesis
        proof (cases "processTurn (Some crd) Player ?s2")
          case None
          with lhs rhs show ?thesis by simp
        next
          case pt: (Some c2)
          have "playerCards c2 = (playerCards c)[nat i := None]"
            using arg_cong [OF processTurn_frame [OF pt], of playerCards] by simp
          with ne lhs rhs pt show ?thesis by simp
        qed
      qed
    qed
  qed
qed

lemma findMatchingCard_gameState:
  "findMatchingCard f (c\<lparr>gameState := g\<rparr>) = findMatchingCard f c"
  by (simp add: findMatchingCard_def)

lemma findJack_gameState: "findJack (c\<lparr>gameState := g\<rparr>) = findJack c"
  by (simp add: findJack_def)

lemma tryCaptureMove_gameState: "tryCaptureMove (c\<lparr>gameState := g\<rparr>) = tryCaptureMove c"
  by (simp add: tryCaptureMove_def findMatchingCard_gameState findJack_gameState Let_def
      cong: if_cong Option.bind_cong)

lemma trySafeDiscard_gameState: "trySafeDiscard (c\<lparr>gameState := g\<rparr>) = trySafeDiscard c"
  by (simp add: trySafeDiscard_def findMatchingCard_gameState Let_def cong: option.case_cong)

lemma cpuActionBeginner_gameState:
  "cpuActionBeginner (c\<lparr>gameState := g\<rparr>) = cpuActionBeginner c"
  by (simp add: cpuActionBeginner_def tryCaptureMove_gameState)

lemma countMemory_step_gameState:
  "countMemory_step (c\<lparr>gameState := g\<rparr>) = countMemory_step c"
  by (intro ext) (simp add: countMemory_step_def)

lemma cpuActionIntermediate_gameState:
  "cpuActionIntermediate (c\<lparr>gameState := g\<rparr>) = cpuActionIntermediate c"
  by (simp add: cpuActionIntermediate_def tryCaptureMove_gameState trySafeDiscard_gameState
      countMemory_step_gameState findMatchingCard_gameState Let_def
      cong: if_cong Option.bind_cong prod.case_cong)

lemma bestMatch_step_gameState:
  "bestMatch_step (c\<lparr>gameState := g\<rparr>) = bestMatch_step c"
proof -
  have a: "matchMemory_step (c\<lparr>gameState := g\<rparr>) = matchMemory_step c"
    by (intro ext) (simp add: matchMemory_step_def)
  have b: "matchHand_step (c\<lparr>gameState := g\<rparr>) = matchHand_step c"
    by (intro ext) (simp add: matchHand_step_def)
  show ?thesis
    by (intro ext)
      (simp add: bestMatch_step_def a b cong: if_cong Option.bind_cong option.case_cong)
qed

lemma cpuActionAdvanced_gameState:
  "cpuActionAdvanced (c\<lparr>gameState := g\<rparr>) = cpuActionAdvanced c"
  by (simp add: cpuActionAdvanced_def tryCaptureMove_gameState trySafeDiscard_gameState
      bestMatch_step_gameState Let_def cong: if_cong Option.bind_cong prod.case_cong)

lemma findRandomNonJack_gameState:
  "findRandomNonJack (c\<lparr>gameState := g\<rparr>)
     = map_option (\<lambda>(k, c'). (k, c'\<lparr>gameState := g\<rparr>)) (findRandomNonJack c)"
proof -
  have a: "collectNonJack_step (c\<lparr>gameState := g\<rparr>) = collectNonJack_step c"
    by (intro ext) (simp add: collectNonJack_step_def)
  show ?thesis
    by (cases "for_loop 0 HandSize (collectNonJack_step c) []")
      (simp_all add: findRandomNonJack_def a Intn_def Let_def)
qed

lemma CPUaction_gameState:
  "CPUaction (c\<lparr>gameState := g\<rparr>)
     = map_option (\<lambda>(k, c'). (k, c'\<lparr>gameState := g\<rparr>)) (CPUaction c)"
proof -
  let ?pick = "case level c of
                   LevelBeginner \<Rightarrow> cpuActionBeginner c
                 | LevelIntermediate \<Rightarrow> cpuActionIntermediate c
                 | LevelAdvanced \<Rightarrow> cpuActionAdvanced c
                 | LevelNotSelected \<Rightarrow> Some (- 1)"
  have pick: "(case level (c\<lparr>gameState := g\<rparr>) of
                   LevelBeginner \<Rightarrow> cpuActionBeginner (c\<lparr>gameState := g\<rparr>)
                 | LevelIntermediate \<Rightarrow> cpuActionIntermediate (c\<lparr>gameState := g\<rparr>)
                 | LevelAdvanced \<Rightarrow> cpuActionAdvanced (c\<lparr>gameState := g\<rparr>)
                 | LevelNotSelected \<Rightarrow> Some (- 1)) = ?pick"
    by (simp add: cpuActionBeginner_gameState cpuActionIntermediate_gameState
        cpuActionAdvanced_gameState split: GameLevel.splits)
  show ?thesis
  proof (cases ?pick)
    case None
    then show ?thesis unfolding CPUaction_def pick by simp
  next
    case (Some cardIdx)
    show ?thesis
    proof (cases "findRandomNonJack c")
      case None
      with Some show ?thesis
        unfolding CPUaction_def pick by (simp add: findRandomNonJack_gameState)
    next
      case fr: (Some kc)
      obtain k c' where kc: "kc = (k, c')" by (cases kc)
      with Some fr show ?thesis
        unfolding CPUaction_def pick by (simp add: findRandomNonJack_gameState)
    qed
  qed
qed

lemma cpuPlays_unfold:
  "cpuPlays c =
     (if \<not> list_ex (\<lambda>p. p \<noteq> None) (cpuCards c) then Some c
      else do {
        (chosen, c1) \<leftarrow> CPUaction c;
        idx \<leftarrow> (if chosen = - 1 then anyValidCard (cpuCards c1) 0 chosen else Some chosen);
        cpuPlayedCard \<leftarrow> nth_slot (cpuCards c1) idx;
        (case cpuPlayedCard of
           None \<Rightarrow> Some (c1\<lparr>lastPlayedCPUCardIdx := idx\<rparr>)
         | Some _ \<Rightarrow> do {
             cc \<leftarrow> set_slot (cpuCards c1) idx None;
             c4 \<leftarrow> processTurn cpuPlayedCard CPU (c1\<lparr>lastPlayedCPUCardIdx := idx, cpuCards := cc\<rparr>);
             Some (c4\<lparr>canUndo := True\<rparr>)
           })
      })"
proof (cases "CPUaction c")
  case None
  then show ?thesis by (simp add: cpuPlays_def)
next
  case (Some kc)
  obtain chosen c1 where kc: "kc = (chosen, c1)" by (cases kc)
  show ?thesis
  proof (cases "chosen = - 1")
    case False
    with Some kc show ?thesis
      by (simp add: cpuPlays_def Let_def cong: option.case_cong)
  next
    case True
    with Some kc show ?thesis
      by (cases "anyValidCard (cpuCards c1) 0 (- 1)")
        (simp_all add: cpuPlays_def Let_def cong: option.case_cong)
  qed
qed

lemma cpuPlays_gameState:
  "cpuPlays (c\<lparr>gameState := g\<rparr>)
     = map_option (\<lambda>c'. if cpuCards c' = cpuCards c then c'\<lparr>gameState := g\<rparr> else c')
         (cpuPlays c)"
proof (cases "list_ex (\<lambda>p. p \<noteq> None) (cpuCards c)")
  case False
  then show ?thesis by (simp add: cpuPlays_def)
next
  case True
  show ?thesis
  proof (cases "CPUaction c")
    case None
    with True show ?thesis by (simp add: cpuPlays_def CPUaction_gameState)
  next
    case (Some kc)
    obtain chosen c1 where kc: "kc = (chosen, c1)" by (cases kc)
    have cc1: "cpuCards c1 = cpuCards c"
      using arg_cong [OF CPUaction_frame, of c chosen c1 cpuCards] Some kc by simp
    have ag: "CPUaction (c\<lparr>gameState := g\<rparr>) = Some (chosen, c1\<lparr>gameState := g\<rparr>)"
      using Some kc by (simp add: CPUaction_gameState)
    let ?idx = "if chosen = - 1 then anyValidCard (cpuCards c) 0 chosen else Some chosen"
    have U: "cpuPlays d = do {
        idx \<leftarrow> ?idx;
        cpuPlayedCard \<leftarrow> nth_slot (cpuCards c) idx;
        (case cpuPlayedCard of
           None \<Rightarrow> Some (d1\<lparr>lastPlayedCPUCardIdx := idx\<rparr>)
         | Some _ \<Rightarrow> do {
             cc \<leftarrow> set_slot (cpuCards c) idx None;
             c4 \<leftarrow> processTurn cpuPlayedCard CPU (d1\<lparr>lastPlayedCPUCardIdx := idx, cpuCards := cc\<rparr>);
             Some (c4\<lparr>canUndo := True\<rparr>)
           }) }"
      if "list_ex (\<lambda>p. p \<noteq> None) (cpuCards d)" "CPUaction d = Some (chosen, d1)"
        "cpuCards d1 = cpuCards c" for d d1
      using that by (simp add: cpuPlays_unfold [of d] cong: option.case_cong if_cong)
    have L: "cpuPlays (c\<lparr>gameState := g\<rparr>) = do {
        idx \<leftarrow> ?idx;
        cpuPlayedCard \<leftarrow> nth_slot (cpuCards c) idx;
        (case cpuPlayedCard of
           None \<Rightarrow> Some (c1\<lparr>gameState := g, lastPlayedCPUCardIdx := idx\<rparr>)
         | Some _ \<Rightarrow> do {
             cc \<leftarrow> set_slot (cpuCards c) idx None;
             c4 \<leftarrow> processTurn cpuPlayedCard CPU
                     (c1\<lparr>gameState := g, lastPlayedCPUCardIdx := idx, cpuCards := cc\<rparr>);
             Some (c4\<lparr>canUndo := True\<rparr>)
           }) }"
      using U [of "c\<lparr>gameState := g\<rparr>" "c1\<lparr>gameState := g\<rparr>"] True ag cc1 by simp
    have R: "cpuPlays c = do {
        idx \<leftarrow> ?idx;
        cpuPlayedCard \<leftarrow> nth_slot (cpuCards c) idx;
        (case cpuPlayedCard of
           None \<Rightarrow> Some (c1\<lparr>lastPlayedCPUCardIdx := idx\<rparr>)
         | Some _ \<Rightarrow> do {
             cc \<leftarrow> set_slot (cpuCards c) idx None;
             c4 \<leftarrow> processTurn cpuPlayedCard CPU (c1\<lparr>lastPlayedCPUCardIdx := idx, cpuCards := cc\<rparr>);
             Some (c4\<lparr>canUndo := True\<rparr>)
           }) }"
      using U [of c c1] True Some kc cc1 by simp
    show ?thesis
    proof (cases ?idx)
      case None
      show ?thesis unfolding L R None by simp
    next
      case i: (Some idx)
      show ?thesis
      proof (cases "nth_slot (cpuCards c) idx")
        case None
        show ?thesis unfolding L R i using None by simp
      next
        case slot: (Some p)
        note pd = nth_slotD [OF slot]
        have s: "set_slot (cpuCards c) idx None = Some ((cpuCards c)[nat idx := None])"
          using pd by (simp add: set_slot_def)
        show ?thesis
        proof (cases p)
          case None
          show ?thesis unfolding L R i using slot None cc1 by simp
        next
          case held: (Some crd)
          let ?s = "c1\<lparr>lastPlayedCPUCardIdx := idx, cpuCards := (cpuCards c)[nat idx := None]\<rparr>"
          have ne: "(cpuCards c)[nat idx := None] \<noteq> cpuCards c"
          proof
            assume "(cpuCards c)[nat idx := None] = cpuCards c"
            then have "(cpuCards c)[nat idx := None] ! nat idx = cpuCards c ! nat idx" by simp
            moreover have "nat idx < length (cpuCards c)" using pd by linarith
            ultimately show False using pd held by simp
          qed
          have pg: "processTurn (Some crd) CPU
                      (c1\<lparr>gameState := g, lastPlayedCPUCardIdx := idx,
                          cpuCards := (cpuCards c)[nat idx := None]\<rparr>)
                    = processTurn (Some crd) CPU ?s"
          proof -
            have eq: "c1\<lparr>gameState := g, lastPlayedCPUCardIdx := idx,
                         cpuCards := (cpuCards c)[nat idx := None]\<rparr> = ?s\<lparr>gameState := g\<rparr>"
              by simp
            show ?thesis by (subst eq) (rule processTurn_gameState)
          qed
          show ?thesis
          proof (cases "processTurn (Some crd) CPU ?s")
            case None
            show ?thesis unfolding L R i using slot held s pg None by simp
          next
            case pt: (Some c4)
            have "cpuCards c4 = (cpuCards c)[nat idx := None]"
              using arg_cong [OF processTurn_frame [OF pt], of cpuCards] by simp
            with ne show ?thesis unfolding L R i using slot held s pg pt by simp
          qed
        qed
      qed
    qed
  qed
qed

text \<open>
  C4, as the code has it. Neither \<open>playerPlays\<close> nor \<open>cpuPlays\<close> reads the game state:
  called in any game state \<open>g\<close>, a call that plays a card gives the state it would give
  in turn, and a call that plays no card leaves \<open>g\<close> in place. A play is without effect
  only when there is no card to play: \<open>playerPlays\<close> on an empty slot does nothing but
  take the undo snapshot (nothing at all at the Advanced level), and \<open>cpuPlays\<close> with an
  empty hand returns the state as it is.
\<close>

theorem plays_do_not_check_turn:
  "playerPlays i (c\<lparr>gameState := g\<rparr>)
     = map_option (\<lambda>c'. if playerCards c' = playerCards c then c'\<lparr>gameState := g\<rparr> else c')
         (playerPlays i c)
   \<and> cpuPlays (c\<lparr>gameState := g\<rparr>)
     = map_option (\<lambda>c'. if cpuCards c' = cpuCards c then c'\<lparr>gameState := g\<rparr> else c')
         (cpuPlays c)
   \<and> (nth_slot (playerCards c) i = Some None
        \<longrightarrow> playerPlays i c = (if level c \<noteq> LevelAdvanced then saveUndoState c else Some c))
   \<and> (\<not> list_ex (\<lambda>p. p \<noteq> None) (cpuCards c) \<longrightarrow> cpuPlays c = Some c)"
proof -
  have empty: "playerPlays i c = (if level c \<noteq> LevelAdvanced then saveUndoState c else Some c)"
    if slot: "nth_slot (playerCards c) i = Some None"
  proof (cases "if level c \<noteq> LevelAdvanced then saveUndoState c else Some c")
    case None
    then show ?thesis by (simp add: playerPlays_def)
  next
    case (Some c1)
    have pc: "playerCards c1 = playerCards c"
      using Some arg_cong [OF saveUndoState_frame(1), of c c1 playerCards]
      by (auto split: if_splits)
    show ?thesis using Some pc slot by (simp add: playerPlays_def)
  qed
  have idle: "cpuPlays c = Some c" if "\<not> list_ex (\<lambda>p. p \<noteq> None) (cpuCards c)"
    using that by (simp add: cpuPlays_def)
  show ?thesis
    using playerPlays_gameState [where i = i and c = c and g = g]
      cpuPlays_gameState [where c = c and g = g] empty idle by blast
qed

lemma held_update_None:
  "n < length xs \<Longrightarrow> xs ! n = Some x \<Longrightarrow> held (xs[n := None]) = held xs - 1"
proof (induction xs arbitrary: n)
  case Nil
  then show ?case by simp
next
  case (Cons a xs)
  show ?case
  proof (cases n)
    case 0
    with Cons.prems show ?thesis by (simp add: held_def)
  next
    case (Suc m)
    with Cons.prems have "held (xs[m := None]) = held xs - 1"
      by (intro Cons.IH) simp_all
    with Suc show ?thesis by (simp add: held_def)
  qed
qed

lemma held_four:
  assumes "length xs = 4" "a \<noteq> None" "b \<noteq> None" "c \<noteq> None" "d \<noteq> None"
  shows "held (xs[0 := a, 1 := b, 2 := c, 3 := d]) = 4"
proof -
  from assms(1) obtain w x y z where "xs = [w, x, y, z]"
    by (cases xs; cases "tl xs"; cases "tl (tl xs)"; cases "tl (tl (tl xs))") auto
  with assms(2-) show ?thesis by (simp add: held_def)
qed

lemma rememberPlayed_cardTotal:
  assumes "rememberPlayed p c = Some c1"
  shows "cardTotal (c1\<lparr>tableCards := tc, cardsOnTable := n\<rparr>)
         = cardTotal c - cardsOnTable c + n"
  by (subst rememberPlayed_frame [OF assms]) (simp add: cardTotal_def)

lemma processTurn_cardTotal:
  assumes "processTurn (Some crd) pid c = Some c'"
  shows "cardTotal c' =
           (if gameState c' = StatePileCaptured then cardTotal c + 1 + cardsOnTable c'
            else cardTotal c + 1)"
    and "playerCards c' = playerCards c" "cpuCards c' = cpuCards c" "deck c' = deck c"
proof -
  note pf = processTurn_frame [OF assms]
  show "playerCards c' = playerCards c" "cpuCards c' = cpuCards c" "deck c' = deck c"
    using arg_cong [OF pf, of playerCards] arg_cong [OF pf, of cpuCards]
      arg_cong [OF pf, of deck] by simp_all
  from processTurn_cases [OF assms] obtain c1 where
    r: "rememberPlayed (Some crd) c = Some c1"
    and d: "(\<exists>beneath. capturePile pid (Some beneath) (face crd) (face beneath)
                          (c1\<lparr>tableCards := (tableCards c)[nat (cardsOnTable c) := Some crd],
                              cardsOnTable := cardsOnTable c + 1\<rparr>) = Some c')
            \<or> c' = passTurn pid (c1\<lparr>tableCards := (tableCards c)[nat (cardsOnTable c) := Some crd],
                                        cardsOnTable := cardsOnTable c + 1\<rparr>)"
    by blast
  let ?c2 = "c1\<lparr>tableCards := (tableCards c)[nat (cardsOnTable c) := Some crd],
                 cardsOnTable := cardsOnTable c + 1\<rparr>"
  have t2: "cardTotal ?c2 = cardTotal c + 1"
    using rememberPlayed_cardTotal [OF r] by simp
  from d show "cardTotal c' =
           (if gameState c' = StatePileCaptured then cardTotal c + 1 + cardsOnTable c'
            else cardTotal c + 1)"
  proof
    assume "\<exists>beneath. capturePile pid (Some beneath) (face crd) (face beneath) ?c2 = Some c'"
    then obtain beneath where
      cp: "capturePile pid (Some beneath) (face crd) (face beneath) ?c2 = Some c'" by blast
    note cf = capturePile_frame [OF cp]
    from capturePile_effect [OF cp] obtain points collected where
      a: "captureAward (face crd) (face beneath) ?c2 = Some (points, collected)"
      and e: "cardsCollectedByPlayer c' + cardsCollectedByCPU c'
              = cardsCollectedByPlayer ?c2 + cardsCollectedByCPU ?c2 + collected"
      by (auto split: if_splits)
    have k: "collected = cardsOnTable ?c2" using captureAward_collected [OF a] .
    have same: "currentCard c' = currentCard ?c2" "playerCards c' = playerCards ?c2"
      "cpuCards c' = cpuCards ?c2" "cardsOnTable c' = cardsOnTable ?c2"
      "gameState c' = StatePileCaptured"
      using arg_cong [OF cf, of currentCard] arg_cong [OF cf, of playerCards]
        arg_cong [OF cf, of cpuCards] arg_cong [OF cf, of cardsOnTable]
        arg_cong [OF cf, of gameState] by simp_all
    have "cardTotal c' = cardTotal ?c2 + collected"
      using same e by (simp add: cardTotal_def)
    with t2 k same show ?thesis by simp
  next
    assume p: "c' = passTurn pid ?c2"
    then have "gameState c' \<noteq> StatePileCaptured" "cardTotal c' = cardTotal ?c2"
      by (simp_all add: passTurn_def cardTotal_def)
    with t2 show ?thesis by simp
  qed
qed

section \<open>Card conservation\<close>

lemma list_all_update:
  "list_all P xs \<Longrightarrow> P x \<Longrightarrow> list_all P (xs[n := x])"
  by (induction xs arbitrary: n) (auto split: nat.splits)

lemma list_all_nth: "list_all P xs \<Longrightarrow> n < length xs \<Longrightarrow> P (xs ! n)"
  by (simp add: list_all_length)

lemma dealPlayer_step_effect:
  assumes "dealPlayer_step i s = Some s'" "list_all (\<lambda>p. p \<noteq> None) (deck s)"
  shows "\<exists>d. d \<noteq> None
           \<and> s' = s\<lparr>playerCards := (playerCards s)[nat i := d], currentCard := currentCard s + 1\<rparr>"
proof -
  from assms(1) obtain d pc where d: "nth_slot (deck s) (currentCard s) = Some d"
    and pc: "set_slot (playerCards s) i d = Some pc"
    and e: "s' = s\<lparr>playerCards := pc, currentCard := currentCard s + 1\<rparr>"
    by (auto simp: dealPlayer_step_def split: Option.bind_splits)
  have "nat (currentCard s) < length (deck s)" using nth_slotD [OF d] by linarith
  then have "d \<noteq> None" using list_all_nth [OF assms(2)] nth_slotD [OF d] by simp
  with set_slotD [OF pc] e show ?thesis by blast
qed

lemma dealCPU_step_effect:
  assumes "dealCPU_step i s = Some s'" "list_all (\<lambda>p. p \<noteq> None) (deck s)"
  shows "\<exists>d. d \<noteq> None
           \<and> s' = s\<lparr>cpuCards := (cpuCards s)[nat i := d], currentCard := currentCard s + 1\<rparr>"
proof -
  from assms(1) obtain d cc where d: "nth_slot (deck s) (currentCard s) = Some d"
    and cc: "set_slot (cpuCards s) i d = Some cc"
    and e: "s' = s\<lparr>cpuCards := cc, currentCard := currentCard s + 1\<rparr>"
    by (auto simp: dealCPU_step_def split: Option.bind_splits)
  have "nat (currentCard s) < length (deck s)" using nth_slotD [OF d] by linarith
  then have "d \<noteq> None" using list_all_nth [OF assms(2)] nth_slotD [OF d] by simp
  with set_slotD [OF cc] e show ?thesis by blast
qed

lemma dealPlayer_loop:
  assumes "for_loop 0 HandSize dealPlayer_step c = Some c'" "dealReady c"
  shows "c' = c\<lparr>playerCards := playerCards c', currentCard := currentCard c + 4\<rparr>
         \<and> held (playerCards c') = 4 \<and> length (playerCards c') = 4"
proof -
  from assms(1) obtain s1 s2 s3 where
    st: "dealPlayer_step 0 c = Some s1" "dealPlayer_step 1 s1 = Some s2"
      "dealPlayer_step 2 s2 = Some s3" "dealPlayer_step 3 s3 = Some c'"
    by (auto simp: HandSize_def for_loop_4 bind_eq_Some_conv)
  from assms(2) have dk: "list_all (\<lambda>p. p \<noteq> None) (deck c)"
    and len: "length (playerCards c) = 4" by (simp_all add: dealReady_def)
  from dealPlayer_step_effect [OF st(1) dk] obtain d0 where
    d0: "d0 \<noteq> None"
      "s1 = c\<lparr>playerCards := (playerCards c)[nat 0 := d0], currentCard := currentCard c + 1\<rparr>"
    by blast
  have dk1: "list_all (\<lambda>p. p \<noteq> None) (deck s1)" using d0 dk by simp
  from dealPlayer_step_effect [OF st(2) dk1] obtain d1 where
    d1: "d1 \<noteq> None"
      "s2 = s1\<lparr>playerCards := (playerCards s1)[nat 1 := d1], currentCard := currentCard s1 + 1\<rparr>"
    by blast
  have dk2: "list_all (\<lambda>p. p \<noteq> None) (deck s2)" using d1 dk1 by simp
  from dealPlayer_step_effect [OF st(3) dk2] obtain d2 where
    d2: "d2 \<noteq> None"
      "s3 = s2\<lparr>playerCards := (playerCards s2)[nat 2 := d2], currentCard := currentCard s2 + 1\<rparr>"
    by blast
  have dk3: "list_all (\<lambda>p. p \<noteq> None) (deck s3)" using d2 dk2 by simp
  from dealPlayer_step_effect [OF st(4) dk3] obtain d3 where
    d3: "d3 \<noteq> None"
      "c' = s3\<lparr>playerCards := (playerCards s3)[nat 3 := d3], currentCard := currentCard s3 + 1\<rparr>"
    by blast
  have pc: "playerCards c' = (playerCards c)[0 := d0, 1 := d1, 2 := d2, 3 := d3]"
    using d0(2) d1(2) d2(2) d3(2) by simp
  have "c' = c\<lparr>playerCards := playerCards c', currentCard := currentCard c + 4\<rparr>"
    using d0(2) d1(2) d2(2) d3(2) by simp
  moreover have "held (playerCards c') = 4"
    unfolding pc using len d0(1) d1(1) d2(1) d3(1) by (rule held_four)
  moreover have "length (playerCards c') = 4" using pc len by simp
  ultimately show ?thesis by blast
qed

lemma dealCPU_loop:
  assumes "for_loop 0 HandSize dealCPU_step c = Some c'" "dealReady c"
  shows "c' = c\<lparr>cpuCards := cpuCards c', currentCard := currentCard c + 4\<rparr>
         \<and> held (cpuCards c') = 4 \<and> length (cpuCards c') = 4"
proof -
  from assms(1) obtain s1 s2 s3 where
    st: "dealCPU_step 0 c = Some s1" "dealCPU_step 1 s1 = Some s2"
      "dealCPU_step 2 s2 = Some s3" "dealCPU_step 3 s3 = Some c'"
    by (auto simp: HandSize_def for_loop_4 bind_eq_Some_conv)
  from assms(2) have dk: "list_all (\<lambda>p. p \<noteq> None) (deck c)"
    and len: "length (cpuCards c) = 4" by (simp_all add: dealReady_def)
  from dealCPU_step_effect [OF st(1) dk] obtain d0 where
    d0: "d0 \<noteq> None"
      "s1 = c\<lparr>cpuCards := (cpuCards c)[nat 0 := d0], currentCard := currentCard c + 1\<rparr>"
    by blast
  have dk1: "list_all (\<lambda>p. p \<noteq> None) (deck s1)" using d0 dk by simp
  from dealCPU_step_effect [OF st(2) dk1] obtain d1 where
    d1: "d1 \<noteq> None"
      "s2 = s1\<lparr>cpuCards := (cpuCards s1)[nat 1 := d1], currentCard := currentCard s1 + 1\<rparr>"
    by blast
  have dk2: "list_all (\<lambda>p. p \<noteq> None) (deck s2)" using d1 dk1 by simp
  from dealCPU_step_effect [OF st(3) dk2] obtain d2 where
    d2: "d2 \<noteq> None"
      "s3 = s2\<lparr>cpuCards := (cpuCards s2)[nat 2 := d2], currentCard := currentCard s2 + 1\<rparr>"
    by blast
  have dk3: "list_all (\<lambda>p. p \<noteq> None) (deck s3)" using d2 dk2 by simp
  from dealCPU_step_effect [OF st(4) dk3] obtain d3 where
    d3: "d3 \<noteq> None"
      "c' = s3\<lparr>cpuCards := (cpuCards s3)[nat 3 := d3], currentCard := currentCard s3 + 1\<rparr>"
    by blast
  have pc: "cpuCards c' = (cpuCards c)[0 := d0, 1 := d1, 2 := d2, 3 := d3]"
    using d0(2) d1(2) d2(2) d3(2) by simp
  have "c' = c\<lparr>cpuCards := cpuCards c', currentCard := currentCard c + 4\<rparr>"
    using d0(2) d1(2) d2(2) d3(2) by simp
  moreover have "held (cpuCards c') = 4"
    unfolding pc using len d0(1) d1(1) d2(1) d3(1) by (rule held_four)
  moreover have "length (cpuCards c') = 4" using pc len by simp
  ultimately show ?thesis by blast
qed

lemma clearHandMemory_loop:
  assumes "for_loop 0 n clearHandMemory_step c = Some c'"
  shows "c' = c\<lparr>currentHandMemory := currentHandMemory c'\<rparr>"
proof -
  have "(\<lambda>t. t = c\<lparr>currentHandMemory := currentHandMemory t\<rparr>) c'"
  proof (rule for_loop_inv [OF assms])
    show "c = c\<lparr>currentHandMemory := currentHandMemory c\<rparr>" by simp
  next
    fix j t t'
    assume t: "t = c\<lparr>currentHandMemory := currentHandMemory t\<rparr>"
      and s: "clearHandMemory_step j t = Some t'"
    from s obtain m where "t' = t\<lparr>currentHandMemory := m\<rparr>"
      by (auto simp: clearHandMemory_step_def split: Option.bind_splits)
    then show "t' = c\<lparr>currentHandMemory := currentHandMemory t'\<rparr>"
      by (subst (asm) t) simp
  qed
  then show ?thesis .
qed

lemma deal_effect:
  assumes "deal c = Some c'" "dealReady c" "currentCard c < DeckSize"
  shows "dealReady c'" "held (playerCards c') = 4" "held (cpuCards c') = 4"
    "currentCard c' = currentCard c + 8" "cardsOnTable c' = cardsOnTable c"
    "cardsCollectedByPlayer c' = cardsCollectedByPlayer c"
    "cardsCollectedByCPU c' = cardsCollectedByCPU c" "gameState c' = gameState c"
proof -
  from assms(1,3) obtain c1 c2 where
    c1: "(if \<not> isInitialPile c then do {
                 c' \<leftarrow> for_loop 0 (currentHandMemoryLength c) clearHandMemory_step
                         (c\<lparr>safeDiscardCandidate := None\<rparr>);
                 Some (c'\<lparr>currentHandMemoryLength := 0\<rparr>)
               } else Some c) = Some c1"
    and c2: "for_loop 0 HandSize dealPlayer_step c1 = Some c2"
    and c3: "for_loop 0 HandSize dealCPU_step c2 = Some c'"
    by (auto simp: deal_def split: Option.bind_splits)
  have f1: "c1 = c\<lparr>safeDiscardCandidate := safeDiscardCandidate c1,
                    currentHandMemory := currentHandMemory c1,
                    currentHandMemoryLength := currentHandMemoryLength c1\<rparr>"
  proof (cases "isInitialPile c")
    case True
    with c1 show ?thesis by simp
  next
    case False
    with c1 obtain d where
      d: "for_loop 0 (currentHandMemoryLength c) clearHandMemory_step
            (c\<lparr>safeDiscardCandidate := None\<rparr>) = Some d"
      and e: "c1 = d\<lparr>currentHandMemoryLength := 0\<rparr>"
      by (auto split: Option.bind_splits)
    show ?thesis
      unfolding e by (subst clearHandMemory_loop [OF d], subst (3) clearHandMemory_loop [OF d]) simp
  qed
  have r1: "dealReady c1"
    using assms(2) by (subst f1) (simp add: dealReady_def)
  note l2 = dealPlayer_loop [OF c2 r1]
  note f2 = l2 [THEN conjunct1]
  have k1: "deck c1 = deck c" "cpuCards c1 = cpuCards c" "currentCard c1 = currentCard c"
    "cardsOnTable c1 = cardsOnTable c" "cardsCollectedByPlayer c1 = cardsCollectedByPlayer c"
    "cardsCollectedByCPU c1 = cardsCollectedByCPU c" "gameState c1 = gameState c"
    using arg_cong [OF f1, of deck] arg_cong [OF f1, of cpuCards] arg_cong [OF f1, of currentCard]
      arg_cong [OF f1, of cardsOnTable] arg_cong [OF f1, of cardsCollectedByPlayer]
      arg_cong [OF f1, of cardsCollectedByCPU] arg_cong [OF f1, of gameState]
    by simp_all
  have k2: "deck c2 = deck c1" "cpuCards c2 = cpuCards c1" "currentCard c2 = currentCard c1 + 4"
    "cardsOnTable c2 = cardsOnTable c1" "cardsCollectedByPlayer c2 = cardsCollectedByPlayer c1"
    "cardsCollectedByCPU c2 = cardsCollectedByCPU c1" "gameState c2 = gameState c1"
    using arg_cong [OF f2, of deck] arg_cong [OF f2, of cpuCards] arg_cong [OF f2, of currentCard]
      arg_cong [OF f2, of cardsOnTable] arg_cong [OF f2, of cardsCollectedByPlayer]
      arg_cong [OF f2, of cardsCollectedByCPU] arg_cong [OF f2, of gameState]
    by simp_all
  have r2: "dealReady c2"
    using r1 l2 k2 by (simp add: dealReady_def)
  note l3 = dealCPU_loop [OF c3 r2]
  note f3 = l3 [THEN conjunct1]
  have k3: "deck c' = deck c2" "playerCards c' = playerCards c2"
    "currentCard c' = currentCard c2 + 4"
    "cardsOnTable c' = cardsOnTable c2" "cardsCollectedByPlayer c' = cardsCollectedByPlayer c2"
    "cardsCollectedByCPU c' = cardsCollectedByCPU c2" "gameState c' = gameState c2"
    using arg_cong [OF f3, of deck] arg_cong [OF f3, of playerCards]
      arg_cong [OF f3, of currentCard]
      arg_cong [OF f3, of cardsOnTable] arg_cong [OF f3, of cardsCollectedByPlayer]
      arg_cong [OF f3, of cardsCollectedByCPU] arg_cong [OF f3, of gameState]
    by simp_all
  show "dealReady c'" using r2 l3 k3 l2 by (simp add: dealReady_def)
  show "held (playerCards c') = 4" using l2 k3 by simp
  show "held (cpuCards c') = 4" using l3 by simp
  show "currentCard c' = currentCard c + 8" using k1 k2 k3 by simp
  show "cardsOnTable c' = cardsOnTable c" using k1 k2 k3 by simp
  show "cardsCollectedByPlayer c' = cardsCollectedByPlayer c" using k1 k2 k3 by simp
  show "cardsCollectedByCPU c' = cardsCollectedByCPU c" using k1 k2 k3 by simp
  show "gameState c' = gameState c" using k1 k2 k3 by simp
qed

lemma shuffle_step_effect:
  assumes "shuffle_step i t = Some t'" "list_all (\<lambda>p. p \<noteq> None) (deck t)"
  shows "t' = t\<lparr>deck := deck t', rngPos := rngPos t'\<rparr> \<and> list_all (\<lambda>p. p \<noteq> None) (deck t')"
proof -
  let ?k = "int (rng t (rngPos t) mod nat DeckSize)"
  from assms(1) obtain a b d1 d2 where
    a: "nth_slot (deck t) ?k = Some a" and b: "nth_slot (deck t) i = Some b"
    and d1: "set_slot (deck t) i a = Some d1" and d2: "set_slot d1 ?k b = Some d2"
    and e: "t' = t\<lparr>rngPos := Suc (rngPos t), deck := d2\<rparr>"
    by (auto simp: shuffle_step_def Intn_def split: Option.bind_splits)
  have "a \<noteq> None" "b \<noteq> None"
    using list_all_nth [OF assms(2)] nth_slotD [OF a] nth_slotD [OF b]
    by (metis nat_less_iff)+
  then have "list_all (\<lambda>p. p \<noteq> None) d2"
    using set_slotD [OF d1] set_slotD [OF d2] assms(2) by (simp add: list_all_update)
  with e show ?thesis by simp
qed

lemma shuffle_effect:
  assumes "shuffle c = Some c'" "list_all (\<lambda>p. p \<noteq> None) (deck c)"
  shows "c' = c\<lparr>deck := deck c', rngPos := rngPos c'\<rparr> \<and> list_all (\<lambda>p. p \<noteq> None) (deck c')"
proof -
  have "(\<lambda>t. t = c\<lparr>deck := deck t, rngPos := rngPos t\<rparr> \<and> list_all (\<lambda>p. p \<noteq> None) (deck t)) c'"
  proof (rule for_loop_inv [OF assms(1) [unfolded shuffle_def]])
    show "c = c\<lparr>deck := deck c, rngPos := rngPos c\<rparr> \<and> list_all (\<lambda>p. p \<noteq> None) (deck c)"
      using assms(2) by simp
  next
    fix j t t'
    assume t: "t = c\<lparr>deck := deck t, rngPos := rngPos t\<rparr> \<and> list_all (\<lambda>p. p \<noteq> None) (deck t)"
      and s: "shuffle_step j t = Some t'"
    note se = shuffle_step_effect [OF s t [THEN conjunct2]]
    have "t' = c\<lparr>deck := deck t', rngPos := rngPos t'\<rparr>"
      by (subst se [THEN conjunct1], subst t [THEN conjunct1]) simp
    with se show "t' = c\<lparr>deck := deck t', rngPos := rngPos t'\<rparr>
                  \<and> list_all (\<lambda>p. p \<noteq> None) (deck t')" by simp
  qed
  then show ?thesis .
qed

lemma dealTable_loop:
  assumes "for_loop 0 n dealTable_step c = Some c'"
  shows "c' = c\<lparr>tableCards := tableCards c'\<rparr>"
proof -
  have "(\<lambda>t. t = c\<lparr>tableCards := tableCards t\<rparr>) c'"
  proof (rule for_loop_inv [OF assms])
    show "c = c\<lparr>tableCards := tableCards c\<rparr>" by simp
  next
    fix j t t'
    assume t: "t = c\<lparr>tableCards := tableCards t\<rparr>" and s: "dealTable_step j t = Some t'"
    from s obtain m where "t' = t\<lparr>tableCards := m\<rparr>"
      by (auto simp: dealTable_step_def split: Option.bind_splits)
    then show "t' = c\<lparr>tableCards := tableCards t'\<rparr>"
      by (subst (asm) t) simp
  qed
  then show ?thesis .
qed

lemma dealReady_NewCasino: "dealReady (NewCasino r)"
  by (simp add: dealReady_def NewCasino_def NewCard_def HandSize_def list_all_iff)

lemma for_loop_deck:
  assumes "for_loop i n body s = Some s'"
    and "\<And>j t t'. body j t = Some t' \<Longrightarrow> deck t' = deck t"
  shows "deck s' = deck s"
proof -
  have "(\<lambda>t. deck t = deck s) s'"
    by (rule for_loop_inv [OF assms(1)]) (simp_all add: assms(2))
  then show ?thesis .
qed

lemma step_deck:
  "clearHandMemory_step j t = Some t' \<Longrightarrow> deck t' = deck t"
  "dealPlayer_step j t = Some t' \<Longrightarrow> deck t' = deck t"
  "dealCPU_step j t = Some t' \<Longrightarrow> deck t' = deck t"
  "dealTable_step j t = Some t' \<Longrightarrow> deck t' = deck t"
  "resetHands_step j t = Some t' \<Longrightarrow> deck t' = deck t"
  "resetPiles_step j t = Some t' \<Longrightarrow> deck t' = deck t"
  "clearAllPlayed_step j t = Some t' \<Longrightarrow> deck t' = deck t"
  by (auto simp: clearHandMemory_step_def dealPlayer_step_def dealCPU_step_def
      dealTable_step_def resetHands_step_def resetPiles_step_def clearAllPlayed_step_def
      split: Option.bind_splits)

lemma deal_deck:
  assumes "deal c = Some c'"
  shows "deck c' = deck c"
proof (cases "currentCard c \<ge> DeckSize")
  case True
  with assms show ?thesis by (simp add: deal_def)
next
  case False
  with assms obtain c1 c2 where
    c1: "(if \<not> isInitialPile c then do {
                 c' \<leftarrow> for_loop 0 (currentHandMemoryLength c) clearHandMemory_step
                         (c\<lparr>safeDiscardCandidate := None\<rparr>);
                 Some (c'\<lparr>currentHandMemoryLength := 0\<rparr>)
               } else Some c) = Some c1"
    and c2: "for_loop 0 HandSize dealPlayer_step c1 = Some c2"
    and c3: "for_loop 0 HandSize dealCPU_step c2 = Some c'"
    by (auto simp: deal_def split: Option.bind_splits)
  have "deck c1 = deck c"
    using c1 for_loop_deck [of 0 "currentHandMemoryLength c" clearHandMemory_step
        "c\<lparr>safeDiscardCandidate := None\<rparr>"] step_deck(1)
    by (auto split: if_splits Option.bind_splits)
  moreover have "deck c2 = deck c1" using for_loop_deck [OF c2] step_deck(2) by blast
  moreover have "deck c' = deck c2" using for_loop_deck [OF c3] step_deck(3) by blast
  ultimately show ?thesis by simp
qed

lemma resetGameInternal_deck:
  assumes "resetGameInternal c = Some c'"
  shows "deck c' = deck c"
proof -
  let ?c1 = "c\<lparr>gameState := StateNotStarted,
                level := LevelNotSelected,
                cardsCollectedByPlayer := 0,
                cardsCollectedByCPU := 0,
                cardsOnTable := 0,
                currentHandMemoryLength := 0,
                allPlayedCardsMemoryLength := 0\<rparr>"
  from assms obtain c2 c4 where
    c2: "for_loop 0 (int (length (allPlayedCardsMemory ?c1))) clearAllPlayed_step ?c1 = Some c2"
    and c4: "for_loop 0 HandSize resetHands_step
               (c2\<lparr>cpuPoint := 0, playerPoint := 0, lastPlayedCPUCardIdx := - 1,
                 lastPlayedPlayerCard := - 1, lastScorer := NoPlayer, isInitialPile := False,
                 canUndo := False, currentCard := 0, safeDiscardCandidate := None,
                 initialHiddenCards := None, initialPileCaptureMsg := []\<rparr>) = Some c4"
    and c5: "for_loop 0 DeckSize resetPiles_step c4 = Some c'"
    by (auto simp: resetGameInternal_def Let_def split: Option.bind_splits)
  have "deck c2 = deck c" using for_loop_deck [OF c2] step_deck(7) by auto
  moreover have "deck c4 = deck c2" using for_loop_deck [OF c4] step_deck(5) by auto
  moreover have "deck c' = deck c4" using for_loop_deck [OF c5] step_deck(6) by blast
  ultimately show ?thesis by simp
qed

lemma deckFull_StartGame:
  assumes "deckFull c" "StartGame c = Some (ok, c')"
  shows "deckFull c'"
proof -
  from assms(2) obtain c0 where
    c0: "(if gameState c \<noteq> StateNotStarted then resetGameInternal c else Some c) = Some c0"
    by (auto simp: StartGame_def split: Option.bind_splits)
  have d0: "deckFull c0"
    using c0 assms(1) resetGameInternal_deck [of c c0] by (auto simp: deckFull_def split: if_splits)
  show ?thesis
  proof (cases "level c0 = LevelNotSelected")
    case True
    with assms(2) c0 d0 show ?thesis by (simp add: StartGame_def)
  next
    case False
    with assms(2) c0 obtain c1 c3 c4 where
      c1: "shuffle (c0\<lparr>currentCard := 0\<rparr>) = Some c1"
      and c3: "for_loop 0 HandSize dealTable_step
                 (c1\<lparr>playerPoint := 0, cpuPoint := 0, cardsCollectedByPlayer := 0,
                   safeDiscardCandidate := None, initialHiddenCards := None,
                   cardsCollectedByCPU := 0, cardsOnTable := HandSize,
                   currentHandMemoryLength := 0, allPlayedCardsMemoryLength := 0,
                   gameState := StatePlayerTurn, isInitialPile := True,
                   lastPlayedCPUCardIdx := - 1, lastPlayedPlayerCard := - 1\<rparr>) = Some c3"
      and c4: "(if length (tableCards c3) \<ge> 3 then do {
                t0 \<leftarrow> nth_slot (tableCards c3) 0;
                t1 \<leftarrow> nth_slot (tableCards c3) 1;
                t2 \<leftarrow> nth_slot (tableCards c3) 2;
                Some (c3\<lparr>initialHiddenCards := Some [t0, t1, t2]\<rparr>)
              } else Some c3) = Some c4"
      and c5: "deal (c4\<lparr>currentCard := HandSize\<rparr>) = Some c'"
      by (simp add: StartGame_def Let_def bind_eq_Some_conv) blast
    have "list_all (\<lambda>p. p \<noteq> None) (deck (c0\<lparr>currentCard := 0\<rparr>))"
      using d0 by (simp add: deckFull_def)
    note s1 = shuffle_effect [OF c1 this]
    have "deck c3 = deck c1" using for_loop_deck [OF c3] step_deck(4) by auto
    moreover have "deck c4 = deck c3" using c4 by (auto split: if_splits Option.bind_splits)
    moreover have "deck c' = deck c4" using deal_deck [OF c5] by simp
    ultimately show ?thesis using s1 by (simp add: deckFull_def)
  qed
qed

lemma deckFull_playerPlays:
  assumes "deckFull c" "playerPlays i c = Some c'"
  shows "deckFull c'"
proof -
  from playerPlays_cases [OF assms(2)] obtain c1 where
    f: "if level c \<noteq> LevelAdvanced then saveUndoState c = Some c1 else c1 = c"
    and d: "(playerCards c ! nat i = None \<and> c' = c1)
            \<or> (\<exists>crd c2. playerCards c ! nat i = Some crd
                 \<and> processTurn (Some crd) Player
                      (c1\<lparr>lastPlayedPlayerCard := i,
                          playerCards := (playerCards c)[nat i := None]\<rparr>) = Some c2
                 \<and> c' = c2\<lparr>isInitialPile := False\<rparr>)"
    by blast
  have f1: "c1 = c\<lparr>undoState := undoState c1\<rparr>"
    using f saveUndoState_frame(1) [of c c1] by (cases "level c = LevelAdvanced") simp_all
  have d1: "deck c1 = deck c" using arg_cong [OF f1, of deck] by simp
  from d have "deck c' = deck c"
  proof
    assume "playerCards c ! nat i = None \<and> c' = c1"
    with d1 show ?thesis by simp
  next
    assume "\<exists>crd c2. playerCards c ! nat i = Some crd
                 \<and> processTurn (Some crd) Player
                      (c1\<lparr>lastPlayedPlayerCard := i,
                          playerCards := (playerCards c)[nat i := None]\<rparr>) = Some c2
                 \<and> c' = c2\<lparr>isInitialPile := False\<rparr>"
    then obtain crd c2 where
      pt: "processTurn (Some crd) Player
             (c1\<lparr>lastPlayedPlayerCard := i, playerCards := (playerCards c)[nat i := None]\<rparr>)
           = Some c2"
      and e: "c' = c2\<lparr>isInitialPile := False\<rparr>" by blast
    show ?thesis using processTurn_cardTotal(4) [OF pt] d1 e by simp
  qed
  with assms(1) show ?thesis by (simp add: deckFull_def)
qed

lemma deckFull_cpuPlays:
  assumes "deckFull c" "cpuPlays c = Some c'"
  shows "deckFull c'"
  using assms(2)
proof (cases rule: cpuPlays_cases)
  case idle
  with assms(1) show ?thesis by simp
next
  case (missed pos idx)
  with assms(1) show ?thesis by (simp add: deckFull_def)
next
  case (played pos idx crd c4)
  show ?thesis
    using processTurn_cardTotal(4) [OF played(4)] played(5) assms(1) by (simp add: deckFull_def)
qed

lemma deckFull_checkEndOfHand:
  assumes "deckFull c" "checkEndOfHand c = Some c'"
  shows "deckFull c'"
proof -
  have eog: "deck d' = deck c" if "handleEndOfGame c = Some d'" for d'
    using that
    by (auto simp: handleEndOfGame_def awardFinalPile_def Let_def
        split: Option.bind_splits if_splits)
  have eoh: "deck d' = deck c" if "handleEndOfHand c = Some d'" for d'
    using that deal_deck [of c] by (auto simp: handleEndOfHand_def split: Option.bind_splits)
  from assms(2) have "deck c' = deck c"
    using eog eoh by (auto simp: checkEndOfHand_def split: if_splits)
  with assms(1) show ?thesis by (simp add: deckFull_def)
qed

lemma deckFull_undoImplementation:
  assumes "deckFull c" "undoImplementation c = Some (ok, c')"
  shows "deckFull c'"
proof -
  from assms(2) have "deck c' = deck c"
    by (auto simp: undoImplementation_def Let_def split: if_splits Option.bind_splits)
  with assms(1) show ?thesis by (simp add: deckFull_def)
qed

lemma reachable_deckFull: "reachable c \<Longrightarrow> deckFull c"
proof (induction rule: reachable.induct)
  case (fresh r)
  show ?case using dealReady_NewCasino [of r] by (simp add: deckFull_def dealReady_def)
next
  case (set_level c l)
  then show ?case by (simp add: deckFull_def SetLevel_def)
next
  case (start_game c ok c')
  then show ?case using deckFull_StartGame by blast
next
  case (reset_game c c')
  then show ?case using resetGameInternal_deck [of c c'] by (simp add: ResetGame_def deckFull_def)
next
  case (player_plays c i c')
  then show ?case using deckFull_playerPlays by blast
next
  case (computer_plays c c')
  then show ?case using deckFull_cpuPlays by blast
next
  case (finalize_capture c)
  then show ?case by (simp add: deckFull_def finalizeCapture_def Let_def)
next
  case (check_end_of_hand c c')
  then show ?case using deckFull_checkEndOfHand by blast
next
  case (undo c ok c')
  then show ?case using deckFull_undoImplementation by blast
qed

lemma reachable_dealReady: "reachable c \<Longrightarrow> dealReady c"
  using reachable_wellFormed [of c] reachable_deckFull [of c]
  by (simp add: dealReady_def wellFormed_def deckFull_def)

lemma StartGame_needs_fresh_state:
  assumes "wellFormed c" "StartGame c = Some (True, c')"
  shows "gameState c = StateNotStarted"
proof (rule ccontr)
  assume n: "gameState c \<noteq> StateNotStarted"
  from resetGameInternal_total [OF assms(1)] obtain c0 where
    "resetGameInternal c = Some c0" "level c0 = LevelNotSelected" by blast
  with n assms(2) show False by (simp add: StartGame_def)
qed

lemma StartGame_started:
  assumes r: "reachable c0" and st: "StartGame c0 = Some (True, c)"
  shows "conservationInv c \<and> gameState c = StatePlayerTurn"
proof -
  have g0: "gameState c0 = StateNotStarted"
    using StartGame_needs_fresh_state [OF reachable_wellFormed [OF r] st] .
  have r0: "dealReady c0" using reachable_dealReady [OF r] .
  have lv: "level c0 \<noteq> LevelNotSelected"
    using st g0 by (auto simp: StartGame_def)
  from st g0 lv obtain c1 c3 c4 where
    c1: "shuffle (c0\<lparr>currentCard := 0\<rparr>) = Some c1"
    and c3: "for_loop 0 HandSize dealTable_step
               (c1\<lparr>playerPoint := 0, cpuPoint := 0, cardsCollectedByPlayer := 0,
                   safeDiscardCandidate := None, initialHiddenCards := None,
                   cardsCollectedByCPU := 0, cardsOnTable := HandSize,
                   currentHandMemoryLength := 0, allPlayedCardsMemoryLength := 0,
                   gameState := StatePlayerTurn, isInitialPile := True,
                   lastPlayedCPUCardIdx := - 1, lastPlayedPlayerCard := - 1\<rparr>) = Some c3"
    and c4: "(if length (tableCards c3) \<ge> 3 then do {
                t0 \<leftarrow> nth_slot (tableCards c3) 0;
                t1 \<leftarrow> nth_slot (tableCards c3) 1;
                t2 \<leftarrow> nth_slot (tableCards c3) 2;
                Some (c3\<lparr>initialHiddenCards := Some [t0, t1, t2]\<rparr>)
              } else Some c3) = Some c4"
    and c5: "deal (c4\<lparr>currentCard := HandSize\<rparr>) = Some c"
    by (simp add: StartGame_def Let_def bind_eq_Some_conv) blast
  have "list_all (\<lambda>p. p \<noteq> None) (deck (c0\<lparr>currentCard := 0\<rparr>))"
    using r0 by (simp add: dealReady_def)
  note s1 = shuffle_effect [OF c1 this]
  have r1: "dealReady c1"
    using r0 s1 [THEN conjunct2] arg_cong [OF s1 [THEN conjunct1], of playerCards]
      arg_cong [OF s1 [THEN conjunct1], of cpuCards]
    by (simp add: dealReady_def)
  note f3 = dealTable_loop [OF c3]
  have k3: "playerCards c3 = playerCards c1" "cpuCards c3 = cpuCards c1" "deck c3 = deck c1"
    "cardsOnTable c3 = HandSize" "cardsCollectedByPlayer c3 = 0" "cardsCollectedByCPU c3 = 0"
    "gameState c3 = StatePlayerTurn"
    using arg_cong [OF f3, of playerCards] arg_cong [OF f3, of cpuCards] arg_cong [OF f3, of deck]
      arg_cong [OF f3, of cardsOnTable] arg_cong [OF f3, of cardsCollectedByPlayer]
      arg_cong [OF f3, of cardsCollectedByCPU] arg_cong [OF f3, of gameState]
    by simp_all
  from c4 have f4: "c4 = c3\<lparr>initialHiddenCards := initialHiddenCards c4\<rparr>"
    by (auto split: if_splits Option.bind_splits)
  have k4: "playerCards c4 = playerCards c1" "cpuCards c4 = cpuCards c1" "deck c4 = deck c1"
    "cardsOnTable c4 = HandSize" "cardsCollectedByPlayer c4 = 0" "cardsCollectedByCPU c4 = 0"
    "gameState c4 = StatePlayerTurn"
    using arg_cong [OF f4, of playerCards] arg_cong [OF f4, of cpuCards] arg_cong [OF f4, of deck]
      arg_cong [OF f4, of cardsOnTable] arg_cong [OF f4, of cardsCollectedByPlayer]
      arg_cong [OF f4, of cardsCollectedByCPU] arg_cong [OF f4, of gameState] k3
    by simp_all
  have r4: "dealReady (c4\<lparr>currentCard := HandSize\<rparr>)"
    using r1 k4 by (simp add: dealReady_def)
  have lt: "currentCard (c4\<lparr>currentCard := HandSize\<rparr>) < DeckSize"
    by (simp add: HandSize_def DeckSize_def)
  note d = deal_effect [OF c5 r4 lt]
  have "cardTotal c = 52"
    using d k4 by (simp add: cardTotal_def HandSize_def DeckSize_def)
  moreover have "gameState c = StatePlayerTurn" using d k4 by simp
  ultimately show ?thesis
    using d(1) by (simp add: conservationInv_def conserved_def DeckSize_def)
qed

section \<open>A play returns while the table has room\<close>

lemma for_loop_keeps:
  assumes "for_loop i n body s = Some s'"
    and "\<And>j t t'. body j t = Some t' \<Longrightarrow> f t' = f t"
  shows "f s' = f s"
proof -
  have "(\<lambda>t. f t = f s) s'"
    by (rule for_loop_inv [OF assms(1)]) (simp_all add: assms(2))
  then show ?thesis .
qed

lemma processTurn_unfold:
  assumes r: "rememberPlayed (Some crd) c = Some c1"
    and n: "0 \<le> cardsOnTable c" "cardsOnTable c < int (length (tableCards c))"
  shows "processTurn (Some crd) pid c =
           (if 1 \<le> cardsOnTable c then
              (case tableCards c ! nat (cardsOnTable c - 1) of
                 None \<Rightarrow> None
               | Some beneath \<Rightarrow>
                   if face crd = face beneath \<or> face crd = ''Jack''
                   then capturePile pid (Some beneath) (face crd) (face beneath)
                          (c1\<lparr>tableCards := (tableCards c)[nat (cardsOnTable c) := Some crd],
                              cardsOnTable := cardsOnTable c + 1\<rparr>)
                   else Some (passTurn pid
                          (c1\<lparr>tableCards := (tableCards c)[nat (cardsOnTable c) := Some crd],
                              cardsOnTable := cardsOnTable c + 1\<rparr>)))
            else Some (passTurn pid
                   (c1\<lparr>tableCards := (tableCards c)[nat (cardsOnTable c) := Some crd],
                       cardsOnTable := cardsOnTable c + 1\<rparr>)))"
proof -
  note t = rememberPlayed_table [OF r]
  have lt: "nat (cardsOnTable c) < length (tableCards c)" using n by linarith
  let ?c2 = "c1\<lparr>tableCards := (tableCards c)[nat (cardsOnTable c) := Some crd],
                 cardsOnTable := cardsOnTable c + 1\<rparr>"
  have s: "set_slot (tableCards c) (cardsOnTable c) (Some crd)
             = Some ((tableCards c)[nat (cardsOnTable c) := Some crd])"
    using n by (simp add: set_slot_def)
  have eq: "processTurn (Some crd) pid c =
          (if cardsOnTable ?c2 > 1 then do {
            topCardOnTable \<leftarrow> nth_slot (tableCards ?c2) (cardsOnTable ?c2 - 1);
            secondToTopCard \<leftarrow> nth_slot (tableCards ?c2) (cardsOnTable ?c2 - 2);
            topFace \<leftarrow> GetFace topCardOnTable;
            secondFace \<leftarrow> GetFace secondToTopCard;
            if topFace = secondFace \<or> topFace = ''Jack''
            then capturePile pid secondToTopCard topFace secondFace ?c2
            else Some (passTurn pid ?c2)
          } else Some (passTurn pid ?c2))"
    using r s t by (simp add: processTurn_def Let_def cong: if_cong)
  show ?thesis
  proof (cases "1 \<le> cardsOnTable c")
    case False
    with eq show ?thesis by simp
  next
    case True
    have top: "nth_slot (tableCards ?c2) (cardsOnTable ?c2 - 1) = Some (Some crd)"
      using n lt by (simp add: nth_slot_def)
    have snd: "nth_slot (tableCards ?c2) (cardsOnTable ?c2 - 2)
                 = Some (tableCards c ! nat (cardsOnTable c - 1))"
      using n lt True by (simp add: nth_slot_def nat_diff_distrib)
    have "processTurn (Some crd) pid c =
            (case tableCards c ! nat (cardsOnTable c - 1) of
                 None \<Rightarrow> None
               | Some beneath \<Rightarrow>
                   if face crd = face beneath \<or> face crd = ''Jack''
                   then capturePile pid (Some beneath) (face crd) (face beneath) ?c2
                   else Some (passTurn pid ?c2))"
      using True by (subst eq, simp only: top snd) (auto simp: GetFace_def split: option.splits)
    with True show ?thesis by simp
  qed
qed

lemma processTurn_total:
  assumes ready: "turnReady c"
  shows "\<exists>c'. processTurn (Some crd) pid c = Some c'"
proof -
  from ready have lens: "0 \<le> currentHandMemoryLength c" "0 \<le> allPlayedCardsMemoryLength c"
    and n: "0 \<le> cardsOnTable c" "cardsOnTable c < int (length (tableCards c))"
    and pile: "list_all (\<lambda>p. p \<noteq> None) (take (nat (cardsOnTable c)) (tableCards c))"
    and hid: "case initialHiddenCards c of None \<Rightarrow> True | Some h \<Rightarrow> hiddenCardsMsg h \<noteq> None"
    by (simp_all add: turnReady_def)
  from rememberPlayed_total [OF lens] obtain c1 where r: "rememberPlayed (Some crd) c = Some c1"
    by blast
  note fr = rememberPlayed_frame [OF r]
  note eq = processTurn_unfold [OF r n, of pid]
  define c2 where "c2 = c1\<lparr>tableCards := (tableCards c)[nat (cardsOnTable c) := Some crd],
                 cardsOnTable := cardsOnTable c + 1\<rparr>"
  show ?thesis
  proof (cases "1 \<le> cardsOnTable c")
    case False
    with eq show ?thesis by simp
  next
    case True
    have lt: "nat (cardsOnTable c) < length (tableCards c)" using n by linarith
    have "nat (cardsOnTable c - 1) < length (take (nat (cardsOnTable c)) (tableCards c))"
      using True lt by simp
    with pile have "take (nat (cardsOnTable c)) (tableCards c) ! nat (cardsOnTable c - 1) \<noteq> None"
      unfolding list_all_length by blast
    then have "tableCards c ! nat (cardsOnTable c - 1) \<noteq> None" using True by simp
    then obtain beneath where u: "tableCards c ! nat (cardsOnTable c - 1) = Some beneath" by blast
    show ?thesis
    proof (cases "face crd = face beneath \<or> face crd = ''Jack''")
      case False
      with eq True u show ?thesis by simp
    next
      case m: True
      have tk: "take (nat (cardsOnTable c2)) (tableCards c2)
                  = take (nat (cardsOnTable c)) (tableCards c) @ [Some crd]"
        using True lt by (simp add: c2_def nat_add_distrib take_Suc_conv_app_nth)
      have pc: "pointCalculator c2 \<noteq> None"
        using pointCalculator_total [of c2] True n pile tk by (simp add: c2_def)
      have aw: "captureAward (face crd) (face beneath) c2 \<noteq> None"
        using pc by (auto simp: captureAward_def)
      have h2: "initialHiddenCards c2 = initialHiddenCards c"
        using arg_cong [OF fr, of initialHiddenCards] by (simp add: c2_def)
      from capturePile_total [of c2, OF _ aw] hid h2
      obtain c' where "capturePile pid (Some beneath) (face crd) (face beneath) c2 = Some c'"
        by auto
      with eq True u m show ?thesis by (simp add: c2_def)
    qed
  qed
qed

lemma playerPlays_total:
  assumes wf: "wellFormed c" and ready: "turnReady c"
    and slot: "0 \<le> i" "i < 4" "playerCards c ! nat i = Some crd"
  shows "\<exists>c1. playerPlays i c = Some c1"
proof -
  have "saveUndoState c \<noteq> None"
    using wf by (intro saveUndoState_total) (simp_all add: wellFormed_def)
  then obtain s0 where sv: "saveUndoState c = Some s0" by blast
  define s1 where "s1 = (if level c \<noteq> LevelAdvanced then s0 else c)"
  have first: "(if level c \<noteq> LevelAdvanced then saveUndoState c else Some c) = Some s1"
    using sv by (simp add: s1_def)
  have f1: "s1 = c\<lparr>undoState := undoState s1\<rparr>"
    using saveUndoState_frame(1) [OF sv] by (cases "level c = LevelAdvanced") (simp_all add: s1_def)
  have len: "length (playerCards c) = 4" using wf by (simp add: wellFormed_def)
  have pc: "playerCards s1 = playerCards c" using arg_cong [OF f1, of playerCards] by simp
  have p: "nth_slot (playerCards s1) i = Some (Some crd)"
    using slot len pc by (simp add: nth_slot_def)
  have s: "set_slot (playerCards s1) i None = Some ((playerCards c)[nat i := None])"
    using slot len pc by (simp add: set_slot_def)
  let ?s2 = "s1\<lparr>lastPlayedPlayerCard := i, playerCards := (playerCards c)[nat i := None]\<rparr>"
  have "turnReady ?s2"
    using ready by (subst f1) (simp add: turnReady_def)
  from processTurn_total [OF this, of crd Player] obtain c2 where
    pt: "processTurn (Some crd) Player ?s2 = Some c2" by blast
  show ?thesis
    using first p s pt by (simp add: playerPlays_def)
qed

lemma playerPlays_full_table:
  assumes "playerCards c ! nat i = Some crd" "int (length (tableCards c)) \<le> cardsOnTable c"
  shows "playerPlays i c = None"
proof (rule ccontr)
  assume "playerPlays i c \<noteq> None"
  then obtain c' where play: "playerPlays i c = Some c'" by blast
  from playerPlays_cases [OF play] assms(1) obtain c1 c2 where
    f: "if level c \<noteq> LevelAdvanced then saveUndoState c = Some c1 else c1 = c"
    and pt: "processTurn (Some crd) Player
               (c1\<lparr>lastPlayedPlayerCard := i, playerCards := (playerCards c)[nat i := None]\<rparr>)
             = Some c2"
    by auto
  have f1: "c1 = c\<lparr>undoState := undoState c1\<rparr>"
    using f saveUndoState_frame(1) [of c c1] by (cases "level c = LevelAdvanced") simp_all
  have "tableCards c1 = tableCards c" "cardsOnTable c1 = cardsOnTable c"
    using arg_cong [OF f1, of tableCards] arg_cong [OF f1, of cardsOnTable] by simp_all
  with processTurn_table(4) [OF pt] assms(2) show False by simp
qed


lemma hiddenKnown_None: "hiddenKnown None"
  by (simp add: hiddenKnown_def)

lemma pileSound_NewCasino: "pileSound (NewCasino r)"
  by (simp add: pileSound_def NewCasino_def zeroUndoState_def hiddenKnown_def)

lemma pileSound_SetLevel: "pileSound c \<Longrightarrow> pileSound (SetLevel l c)"
  by (simp add: pileSound_def SetLevel_def)

lemma rememberPlayed_allPlayed:
  "rememberPlayed p c = Some c1 \<Longrightarrow> allPlayedCardsMemoryLength c \<le> allPlayedCardsMemoryLength c1"
  by (auto simp: rememberPlayed_def split: GameLevel.splits if_splits Option.bind_splits)

lemma processTurn_pile:
  assumes "processTurn (Some crd) pid c = Some c'"
  shows "initialHiddenCards c' = initialHiddenCards c \<or> initialHiddenCards c' = None"
    and "allPlayedCardsMemoryLength c \<le> allPlayedCardsMemoryLength c'"
    and "undoState c' = undoState c" and "currentCard c' = currentCard c"
    and "canUndo c' = canUndo c" and "level c' = level c"
proof -
  from processTurn_cases [OF assms] obtain c1 where
    r: "rememberPlayed (Some crd) c = Some c1"
    and d: "(\<exists>beneath. capturePile pid (Some beneath) (face crd) (face beneath)
                          (c1\<lparr>tableCards := (tableCards c)[nat (cardsOnTable c) := Some crd],
                              cardsOnTable := cardsOnTable c + 1\<rparr>) = Some c')
            \<or> c' = passTurn pid (c1\<lparr>tableCards := (tableCards c)[nat (cardsOnTable c) := Some crd],
                                        cardsOnTable := cardsOnTable c + 1\<rparr>)"
    by blast
  note fr = rememberPlayed_frame [OF r]
  have h1: "initialHiddenCards c1 = initialHiddenCards c"
    using arg_cong [OF fr, of initialHiddenCards] by simp
  from d have "(initialHiddenCards c' = initialHiddenCards c1 \<or> initialHiddenCards c' = None)
               \<and> allPlayedCardsMemoryLength c' = allPlayedCardsMemoryLength c1"
  proof
    assume "\<exists>beneath. capturePile pid (Some beneath) (face crd) (face beneath)
                          (c1\<lparr>tableCards := (tableCards c)[nat (cardsOnTable c) := Some crd],
                              cardsOnTable := cardsOnTable c + 1\<rparr>) = Some c'"
    then obtain beneath where cp: "capturePile pid (Some beneath) (face crd) (face beneath)
                          (c1\<lparr>tableCards := (tableCards c)[nat (cardsOnTable c) := Some crd],
                              cardsOnTable := cardsOnTable c + 1\<rparr>) = Some c'" by blast
    show ?thesis
      using arg_cong [OF capturePile_frame [OF cp], of initialHiddenCards]
        arg_cong [OF capturePile_frame [OF cp], of allPlayedCardsMemoryLength] by simp
  next
    assume "c' = passTurn pid (c1\<lparr>tableCards := (tableCards c)[nat (cardsOnTable c) := Some crd],
                                        cardsOnTable := cardsOnTable c + 1\<rparr>)"
    then show ?thesis by (simp add: passTurn_def)
  qed
  with h1 rememberPlayed_allPlayed [OF r]
  show "initialHiddenCards c' = initialHiddenCards c \<or> initialHiddenCards c' = None"
    and "allPlayedCardsMemoryLength c \<le> allPlayedCardsMemoryLength c'" by auto
  note pf = processTurn_frame [OF assms]
  show "undoState c' = undoState c" using arg_cong [OF pf, of undoState] by simp
  show "currentCard c' = currentCard c" using arg_cong [OF pf, of currentCard] by simp
  show "canUndo c' = canUndo c" using arg_cong [OF pf, of canUndo] by simp
  show "level c' = level c" using arg_cong [OF pf, of level] by simp
qed

lemma pileSound_processTurn:
  assumes ps: "pileSound c" and pt: "processTurn (Some crd) pid c = Some c'"
  shows "pileSound c'"
proof -
  note t = processTurn_table [OF pt]
  note q = processTurn_pile [OF pt]
  have lt: "nat (cardsOnTable c) < length (tableCards c)" using t(3,4) by linarith
  have "take (nat (cardsOnTable c')) (tableCards c')
          = take (nat (cardsOnTable c)) (tableCards c) @ [Some crd]"
    using t lt by (simp add: nat_add_distrib take_Suc_conv_app_nth)
  then have "list_all (\<lambda>p. p \<noteq> None) (take (nat (cardsOnTable c')) (tableCards c'))"
    using ps by (simp add: pileSound_def)
  moreover have "hiddenKnown (initialHiddenCards c')"
    using q(1) ps by (auto simp: pileSound_def hiddenKnown_None)
  moreover have "0 \<le> allPlayedCardsMemoryLength c'"
    using q(2) ps by (simp add: pileSound_def)
  ultimately show ?thesis using ps q(3) by (simp add: pileSound_def)
qed

lemma pileSound_saveUndoState:
  assumes ps: "pileSound c" and sv: "saveUndoState c = Some c1"
  shows "pileSound c1"
proof -
  note f = saveUndoState_frame [OF sv]
  have len: "length (take (nat (cardsOnTable c)) (tableCards c)) = nat (cardsOnTable c)"
    using f(3,4) by simp
  show ?thesis
    using ps len by (subst f(1)) (simp add: pileSound_def f(2))
qed

lemma pileSound_playerPlays:
  assumes ps: "pileSound c" and play: "playerPlays i c = Some c'"
  shows "pileSound c'"
proof -
  from playerPlays_cases [OF play] obtain c1 where
    f: "if level c \<noteq> LevelAdvanced then saveUndoState c = Some c1 else c1 = c"
    and d: "(playerCards c ! nat i = None \<and> c' = c1)
            \<or> (\<exists>crd c2. playerCards c ! nat i = Some crd
                 \<and> processTurn (Some crd) Player
                      (c1\<lparr>lastPlayedPlayerCard := i,
                          playerCards := (playerCards c)[nat i := None]\<rparr>) = Some c2
                 \<and> c' = c2\<lparr>isInitialPile := False\<rparr>)"
    by blast
  have p1: "pileSound c1"
    using f ps pileSound_saveUndoState [of c c1] by (cases "level c = LevelAdvanced") simp_all
  from d show ?thesis
  proof
    assume "playerCards c ! nat i = None \<and> c' = c1"
    with p1 show ?thesis by simp
  next
    assume "\<exists>crd c2. playerCards c ! nat i = Some crd
                 \<and> processTurn (Some crd) Player
                      (c1\<lparr>lastPlayedPlayerCard := i,
                          playerCards := (playerCards c)[nat i := None]\<rparr>) = Some c2
                 \<and> c' = c2\<lparr>isInitialPile := False\<rparr>"
    then obtain crd c2 where
      pt: "processTurn (Some crd) Player
             (c1\<lparr>lastPlayedPlayerCard := i, playerCards := (playerCards c)[nat i := None]\<rparr>)
           = Some c2"
      and e: "c' = c2\<lparr>isInitialPile := False\<rparr>" by blast
    have "pileSound (c1\<lparr>lastPlayedPlayerCard := i, playerCards := (playerCards c)[nat i := None]\<rparr>)"
      using p1 by (simp add: pileSound_def)
    then have "pileSound c2" using pt by (rule pileSound_processTurn)
    with e show ?thesis by (simp add: pileSound_def)
  qed
qed

lemma pileSound_cpuPlays:
  assumes ps: "pileSound c" and play: "cpuPlays c = Some c'"
  shows "pileSound c'"
  using play
proof (cases rule: cpuPlays_cases)
  case idle
  with ps show ?thesis by simp
next
  case (missed pos idx)
  with ps show ?thesis by (simp add: pileSound_def)
next
  case (played pos idx crd c4)
  have "pileSound (c\<lparr>rngPos := pos, lastPlayedCPUCardIdx := idx,
                   cpuCards := (cpuCards c)[nat idx := None]\<rparr>)"
    using ps by (simp add: pileSound_def)
  then have "pileSound c4" using played(4) by (rule pileSound_processTurn)
  with played(5) show ?thesis by (simp add: pileSound_def)
qed

lemma pileSound_finalizeCapture: "pileSound c \<Longrightarrow> pileSound (finalizeCapture c)"
  by (simp add: finalizeCapture_def pileSound_def Let_def)

lemma step_keeps_pile:
  "clearHandMemory_step j t = Some t' \<Longrightarrow>
     (tableCards t', cardsOnTable t', initialHiddenCards t', allPlayedCardsMemoryLength t',
      undoState t')
     = (tableCards t, cardsOnTable t, initialHiddenCards t, allPlayedCardsMemoryLength t,
        undoState t)"
  "dealPlayer_step j t = Some t' \<Longrightarrow>
     (tableCards t', cardsOnTable t', initialHiddenCards t', allPlayedCardsMemoryLength t',
      undoState t')
     = (tableCards t, cardsOnTable t, initialHiddenCards t, allPlayedCardsMemoryLength t,
        undoState t)"
  "dealCPU_step j t = Some t' \<Longrightarrow>
     (tableCards t', cardsOnTable t', initialHiddenCards t', allPlayedCardsMemoryLength t',
      undoState t')
     = (tableCards t, cardsOnTable t, initialHiddenCards t, allPlayedCardsMemoryLength t,
        undoState t)"
  by (auto simp: clearHandMemory_step_def dealPlayer_step_def dealCPU_step_def
      split: Option.bind_splits)

lemma deal_keeps_pile:
  assumes "deal c = Some c'"
  shows "tableCards c' = tableCards c" "cardsOnTable c' = cardsOnTable c"
    "initialHiddenCards c' = initialHiddenCards c"
    "allPlayedCardsMemoryLength c' = allPlayedCardsMemoryLength c"
    "undoState c' = undoState c"
proof -
  let ?f = "\<lambda>t. (tableCards t, cardsOnTable t, initialHiddenCards t,
                  allPlayedCardsMemoryLength t, undoState t)"
  have "?f c' = ?f c"
  proof (cases "currentCard c \<ge> DeckSize")
    case True
    with assms show ?thesis by (simp add: deal_def)
  next
    case False
    with assms obtain c1 c2 where
      c1: "(if \<not> isInitialPile c then do {
                 c' \<leftarrow> for_loop 0 (currentHandMemoryLength c) clearHandMemory_step
                         (c\<lparr>safeDiscardCandidate := None\<rparr>);
                 Some (c'\<lparr>currentHandMemoryLength := 0\<rparr>)
               } else Some c) = Some c1"
      and c2: "for_loop 0 HandSize dealPlayer_step c1 = Some c2"
      and c3: "for_loop 0 HandSize dealCPU_step c2 = Some c'"
      by (auto simp: deal_def split: Option.bind_splits)
    have "?f c1 = ?f c"
    proof (cases "isInitialPile c")
      case True
      with c1 show ?thesis by simp
    next
      case False
      with c1 obtain d where d: "for_loop 0 (currentHandMemoryLength c) clearHandMemory_step
                         (c\<lparr>safeDiscardCandidate := None\<rparr>) = Some d"
        and e: "c1 = d\<lparr>currentHandMemoryLength := 0\<rparr>"
        by (auto split: Option.bind_splits)
      have "?f d = ?f (c\<lparr>safeDiscardCandidate := None\<rparr>)"
        by (rule for_loop_keeps [OF d]) (rule step_keeps_pile(1))
      with e show ?thesis by simp
    qed
    moreover have "?f c2 = ?f c1"
      by (rule for_loop_keeps [OF c2]) (rule step_keeps_pile(2))
    moreover have "?f c' = ?f c2"
      by (rule for_loop_keeps [OF c3]) (rule step_keeps_pile(3))
    ultimately show ?thesis by simp
  qed
  then show "tableCards c' = tableCards c" "cardsOnTable c' = cardsOnTable c"
    "initialHiddenCards c' = initialHiddenCards c"
    "allPlayedCardsMemoryLength c' = allPlayedCardsMemoryLength c"
    "undoState c' = undoState c" by simp_all
qed

lemma pileSound_checkEndOfHand:
  assumes ps: "pileSound c" and chk: "checkEndOfHand c = Some c'"
  shows "pileSound c'"
proof -
  have eog: "pileSound d'" if "handleEndOfGame c = Some d'" for d'
    using that ps
    by (auto simp: handleEndOfGame_def awardFinalPile_def pileSound_def Let_def
        split: Option.bind_splits if_splits)
  have eoh: "pileSound d'" if "handleEndOfHand c = Some d'" for d'
  proof -
    from that obtain d where d: "deal c = Some d" and e: "d' = d\<lparr>gameState := StatePlayerTurn\<rparr>"
      by (auto simp: handleEndOfHand_def split: Option.bind_splits)
    show ?thesis using ps deal_keeps_pile [OF d] e by (simp add: pileSound_def)
  qed
  from chk ps eog eoh show ?thesis
    by (auto simp: checkEndOfHand_def split: if_splits)
qed

lemma pileSound_undoImplementation:
  assumes wf: "wellFormed c" and ps: "pileSound c"
    and un: "undoImplementation c = Some (ok, c')"
  shows "pileSound c'"
proof (cases "canUndo c")
  case False
  with un ps show ?thesis by (simp add: undoImplementation_def)
next
  case True
  with un obtain tc where
    tc: "nilOut (copy_into (tableCards c) (us_tableCards (undoState c)))
           (us_cardsOnTable (undoState c)) = Some tc"
    and e: "cardsOnTable c' = us_cardsOnTable (undoState c)" "tableCards c' = tc"
      "initialHiddenCards c' = us_initialHiddenCards (undoState c)"
      "allPlayedCardsMemoryLength c' = allPlayedCardsMemoryLength c"
      "undoState c' = undoState c"
    by (auto simp: undoImplementation_def Let_def split: Option.bind_splits)
  from wf have n: "0 \<le> us_cardsOnTable (undoState c)" "us_cardsOnTable (undoState c) \<le> 52"
    and len: "length (tableCards c) = 52"
    by (simp_all add: wellFormed_def)
  from ps have sl: "length (us_tableCards (undoState c)) = nat (us_cardsOnTable (undoState c))"
    by (simp add: pileSound_def)
  have le: "nat (us_cardsOnTable (undoState c)) \<le> length (tableCards c)" using n len by simp
  have "take (nat (us_cardsOnTable (undoState c))) tc
          = take (nat (us_cardsOnTable (undoState c)))
              (copy_into (tableCards c) (us_tableCards (undoState c)))"
    using nilOut_prefix [OF tc n(1)] .
  also have "\<dots> = us_tableCards (undoState c)"
    using copy_into_prefix [OF le sl] .
  finally have "take (nat (cardsOnTable c')) (tableCards c') = us_tableCards (undoState c)"
    using e by simp
  with ps e show ?thesis by (simp add: pileSound_def)
qed


lemma reset_step_keeps:
  "clearAllPlayed_step j t = Some t' \<Longrightarrow>
     (cardsOnTable t', allPlayedCardsMemoryLength t', initialHiddenCards t', undoState t')
     = (cardsOnTable t, allPlayedCardsMemoryLength t, initialHiddenCards t, undoState t)"
  "resetHands_step j t = Some t' \<Longrightarrow>
     (cardsOnTable t', allPlayedCardsMemoryLength t', initialHiddenCards t', undoState t')
     = (cardsOnTable t, allPlayedCardsMemoryLength t, initialHiddenCards t, undoState t)"
  "resetPiles_step j t = Some t' \<Longrightarrow>
     (cardsOnTable t', allPlayedCardsMemoryLength t', initialHiddenCards t', undoState t')
     = (cardsOnTable t, allPlayedCardsMemoryLength t, initialHiddenCards t, undoState t)"
  by (auto simp: clearAllPlayed_step_def resetHands_step_def resetPiles_step_def
      split: Option.bind_splits)

lemma pileSound_resetGameInternal:
  assumes ps: "pileSound c" and rs: "resetGameInternal c = Some c'"
  shows "pileSound c'"
proof -
  let ?f = "\<lambda>t. (cardsOnTable t, allPlayedCardsMemoryLength t, initialHiddenCards t, undoState t)"
  let ?c1 = "c\<lparr>gameState := StateNotStarted,
                level := LevelNotSelected,
                cardsCollectedByPlayer := 0,
                cardsCollectedByCPU := 0,
                cardsOnTable := 0,
                currentHandMemoryLength := 0,
                allPlayedCardsMemoryLength := 0\<rparr>"
  from rs obtain c2 c4 where
    c2: "for_loop 0 (int (length (allPlayedCardsMemory ?c1))) clearAllPlayed_step ?c1 = Some c2"
    and c4: "for_loop 0 HandSize resetHands_step
               (c2\<lparr>cpuPoint := 0, playerPoint := 0, lastPlayedCPUCardIdx := - 1,
                 lastPlayedPlayerCard := - 1, lastScorer := NoPlayer, isInitialPile := False,
                 canUndo := False, currentCard := 0, safeDiscardCandidate := None,
                 initialHiddenCards := None, initialPileCaptureMsg := []\<rparr>) = Some c4"
    and c5: "for_loop 0 DeckSize resetPiles_step c4 = Some c'"
    by (auto simp: resetGameInternal_def Let_def split: Option.bind_splits)
  have a: "?f c2 = ?f ?c1"
    by (rule for_loop_keeps [OF c2]) (rule reset_step_keeps(1))
  have b: "?f c4 = ?f (c2\<lparr>cpuPoint := 0, playerPoint := 0, lastPlayedCPUCardIdx := - 1,
                 lastPlayedPlayerCard := - 1, lastScorer := NoPlayer, isInitialPile := False,
                 canUndo := False, currentCard := 0, safeDiscardCandidate := None,
                 initialHiddenCards := None, initialPileCaptureMsg := []\<rparr>)"
    by (rule for_loop_keeps [OF c4]) (rule reset_step_keeps(2))
  have d: "?f c' = ?f c4"
    by (rule for_loop_keeps [OF c5]) (rule reset_step_keeps(3))
  from a b d have "cardsOnTable c' = 0" "allPlayedCardsMemoryLength c' = 0"
    "initialHiddenCards c' = None" "undoState c' = undoState c"
    by simp_all
  with ps show ?thesis by (simp add: pileSound_def hiddenKnown_None)
qed

lemma dealTable_stepD:
  assumes "dealTable_step i t = Some t'"
  shows "t' = t\<lparr>tableCards := (tableCards t)[nat i := deck t ! nat i]\<rparr>"
    and "0 \<le> i" "i < int (length (deck t))" "i < int (length (tableCards t))"
  using assms
  by (auto simp: dealTable_step_def dest!: nth_slotD set_slotD split: Option.bind_splits)

lemma dealTable_filled:
  assumes lp: "for_loop 0 HandSize dealTable_step c = Some c'"
    and full: "list_all (\<lambda>p. p \<noteq> None) (deck c)"
  shows "list_all (\<lambda>p. p \<noteq> None) (take 4 (tableCards c'))" and "4 \<le> length (tableCards c')"
proof -
  from lp obtain t1 t2 t3 where
    s0: "dealTable_step 0 c = Some t1" and s1: "dealTable_step 1 t1 = Some t2"
    and s2: "dealTable_step 2 t2 = Some t3" and s3: "dealTable_step 3 t3 = Some c'"
    by (auto simp: HandSize_def for_loop_4 split: Option.bind_splits)
  note d0 = dealTable_stepD [OF s0] and d1 = dealTable_stepD [OF s1]
    and d2 = dealTable_stepD [OF s2] and d3 = dealTable_stepD [OF s3]
  have dk: "deck t1 = deck c" "deck t2 = deck c" "deck t3 = deck c"
    using arg_cong [OF d0(1), of deck] arg_cong [OF d1(1), of deck] arg_cong [OF d2(1), of deck]
    by simp_all
  have tb: "tableCards c' = (tableCards c)[0 := deck c ! 0, 1 := deck c ! 1,
                                          2 := deck c ! 2, 3 := deck c ! 3]"
    using arg_cong [OF d0(1), of tableCards] arg_cong [OF d1(1), of tableCards]
      arg_cong [OF d2(1), of tableCards] arg_cong [OF d3(1), of tableCards] dk
    by (simp add: eval_nat_numeral)
  have l3: "3 < length (deck c)" using d3(3) dk by simp
  have t3: "3 < length (tableCards c)"
    using d3(4) arg_cong [OF d0(1), of tableCards] arg_cong [OF d1(1), of tableCards]
      arg_cong [OF d2(1), of tableCards] by simp
  have nn: "deck c ! k \<noteq> None" if "k < 4" for k
    using full that l3 by (simp add: list_all_length)
  show "4 \<le> length (tableCards c')" using tb t3 by simp
  have "tableCards c' ! k \<noteq> None" if "k < 4" for k
  proof -
    from that have "k = 0 \<or> k = 1 \<or> k = 2 \<or> k = 3" by arith
    moreover have "tableCards c \<noteq> []" using t3 by auto
    moreover have "1 < length (tableCards c)" "2 < length (tableCards c)"
      using t3 by linarith+
    ultimately show ?thesis
      using tb t3 nn [of 0] nn [of 1] nn [of 2] nn [of 3] by (auto simp: nth_list_update)
  qed
  then show "list_all (\<lambda>p. p \<noteq> None) (take 4 (tableCards c'))"
    by (simp add: list_all_length)
qed

lemma hiddenKnown_three:
  assumes "list_all (\<lambda>p. p \<noteq> None) (take 4 tc)" "4 \<le> length tc"
  shows "hiddenKnown (Some [tc ! 0, tc ! 1, tc ! 2])"
proof -
  have "tc ! k \<noteq> None" if "k < 4" for k
    using assms that by (simp add: list_all_length)
  from this [of 0] this [of 1] this [of 2] show ?thesis
    by (auto simp: hiddenKnown_def hiddenCardsMsg_def nth_slot_def GetFace_def)
qed

lemma pileSound_StartGame:
  assumes ps: "pileSound c" and df: "deckFull c" and st: "StartGame c = Some (ok, c')"
  shows "pileSound c'"
proof -
  from st obtain c0 where
    c0: "(if gameState c \<noteq> StateNotStarted then resetGameInternal c else Some c) = Some c0"
    by (auto simp: StartGame_def split: Option.bind_splits)
  have p0: "pileSound c0"
    using c0 ps pileSound_resetGameInternal [of c c0] by (auto split: if_splits)
  have d0: "deckFull c0"
    using c0 df resetGameInternal_deck [of c c0] by (auto simp: deckFull_def split: if_splits)
  show ?thesis
  proof (cases "level c0 = LevelNotSelected")
    case True
    with st c0 p0 show ?thesis by (simp add: StartGame_def)
  next
    case False
    with st c0 obtain c1 c3 c4 where
      c1: "shuffle (c0\<lparr>currentCard := 0\<rparr>) = Some c1"
      and c3: "for_loop 0 HandSize dealTable_step
                 (c1\<lparr>playerPoint := 0, cpuPoint := 0, cardsCollectedByPlayer := 0,
                   safeDiscardCandidate := None, initialHiddenCards := None,
                   cardsCollectedByCPU := 0, cardsOnTable := HandSize,
                   currentHandMemoryLength := 0, allPlayedCardsMemoryLength := 0,
                   gameState := StatePlayerTurn, isInitialPile := True,
                   lastPlayedCPUCardIdx := - 1, lastPlayedPlayerCard := - 1\<rparr>) = Some c3"
      and c4: "(if length (tableCards c3) \<ge> 3 then do {
                t0 \<leftarrow> nth_slot (tableCards c3) 0;
                t1 \<leftarrow> nth_slot (tableCards c3) 1;
                t2 \<leftarrow> nth_slot (tableCards c3) 2;
                Some (c3\<lparr>initialHiddenCards := Some [t0, t1, t2]\<rparr>)
              } else Some c3) = Some c4"
      and c5: "deal (c4\<lparr>currentCard := HandSize\<rparr>) = Some c'"
      by (simp add: StartGame_def Let_def bind_eq_Some_conv) blast
    have "list_all (\<lambda>p. p \<noteq> None) (deck (c0\<lparr>currentCard := 0\<rparr>))"
      using d0 by (simp add: deckFull_def)
    note s1 = shuffle_effect [OF c1 this]
    have u1: "undoState c1 = undoState c0"
      using arg_cong [OF s1 [THEN conjunct1], of undoState] by simp
    let ?c2 = "c1\<lparr>playerPoint := 0, cpuPoint := 0, cardsCollectedByPlayer := 0,
                   safeDiscardCandidate := None, initialHiddenCards := None,
                   cardsCollectedByCPU := 0, cardsOnTable := HandSize,
                   currentHandMemoryLength := 0, allPlayedCardsMemoryLength := 0,
                   gameState := StatePlayerTurn, isInitialPile := True,
                   lastPlayedCPUCardIdx := - 1, lastPlayedPlayerCard := - 1\<rparr>"
    have "list_all (\<lambda>p. p \<noteq> None) (deck ?c2)" using s1 [THEN conjunct2] by simp
    note filled = dealTable_filled [OF c3 this]
    note f3 = dealTable_loop [OF c3]
    have k3: "cardsOnTable c3 = 4" "allPlayedCardsMemoryLength c3 = 0"
      "undoState c3 = undoState c0" "initialHiddenCards c3 = None"
      using arg_cong [OF f3, of cardsOnTable] arg_cong [OF f3, of allPlayedCardsMemoryLength]
        arg_cong [OF f3, of undoState] arg_cong [OF f3, of initialHiddenCards] u1
      by (simp_all add: HandSize_def)
    from c4 filled(2) have e4: "c4 = c3\<lparr>initialHiddenCards :=
                                  Some [tableCards c3 ! 0, tableCards c3 ! 1, tableCards c3 ! 2]\<rparr>"
      by (auto simp: nth_slot_def split: if_splits Option.bind_splits)
    have k4: "cardsOnTable c4 = 4" "allPlayedCardsMemoryLength c4 = 0"
      "undoState c4 = undoState c0" "tableCards c4 = tableCards c3"
      "hiddenKnown (initialHiddenCards c4)"
      using k3 hiddenKnown_three [OF filled] by (simp_all add: e4)
    note d = deal_keeps_pile [OF c5]
    show ?thesis
      using d k4 filled(1) p0 by (simp add: pileSound_def)
  qed
qed

lemma reachable_pileSound: "reachable c \<Longrightarrow> pileSound c"
proof (induction rule: reachable.induct)
  case (fresh r)
  show ?case by (rule pileSound_NewCasino)
next
  case (set_level c l)
  then show ?case by (simp add: pileSound_SetLevel)
next
  case (start_game c ok c')
  then show ?case using pileSound_StartGame reachable_deckFull by blast
next
  case (reset_game c c')
  then show ?case using pileSound_resetGameInternal by (simp add: ResetGame_def)
next
  case (player_plays c i c')
  then show ?case using pileSound_playerPlays by blast
next
  case (computer_plays c c')
  then show ?case using pileSound_cpuPlays by blast
next
  case (finalize_capture c)
  then show ?case by (simp add: pileSound_finalizeCapture)
next
  case (check_end_of_hand c c')
  then show ?case using pileSound_checkEndOfHand by blast
next
  case (undo c ok c')
  then show ?case using pileSound_undoImplementation reachable_wellFormed by blast
qed

lemma reachable_turnReady:
  assumes "reachable c" "cardsOnTable c < 52"
  shows "turnReady c"
  using reachable_wellFormed [OF assms(1)] reachable_pileSound [OF assms(1)] assms(2)
  by (simp add: turnReady_def wellFormed_def pileSound_def hiddenKnown_def)

text \<open>
  C2, as the code has it. In a reachable state below the Advanced level where slot \<open>i\<close>
  is occupied and the table holds fewer than 52 cards, \<open>playerPlays i\<close> returns (on a
  full table it panics). If undo was allowed before the move (\<open>canUndo\<close>, which the
  computer's move sets), the undo that follows returns true and restores both hands, the
  table pile (its count and its cards), both scores, both collection counts and the
  current-hand memory (its length and its cards), and a second undo returns false and
  changes nothing. If undo was not allowed, the undo after the move returns false and
  changes nothing.
\<close>

theorem undo_after_player_move:
  assumes reach: "reachable c"
    and lvl: "level c \<noteq> LevelAdvanced"
    and slot: "0 \<le> i" "i < 4" "playerCards c ! nat i = Some crd"
    and room: "cardsOnTable c < 52"
  shows "\<exists>c1. playerPlays i c = Some c1 \<and>
         (if canUndo c
          then \<exists>c2. undoImplementation c1 = Some (True, c2)
                \<and> playerCards c2 = playerCards c \<and> cpuCards c2 = cpuCards c
                \<and> cardsOnTable c2 = cardsOnTable c
                \<and> take (nat (cardsOnTable c)) (tableCards c2)
                    = take (nat (cardsOnTable c)) (tableCards c)
                \<and> playerPoint c2 = playerPoint c \<and> cpuPoint c2 = cpuPoint c
                \<and> cardsCollectedByPlayer c2 = cardsCollectedByPlayer c
                \<and> cardsCollectedByCPU c2 = cardsCollectedByCPU c
                \<and> currentHandMemoryLength c2 = currentHandMemoryLength c
                \<and> take (nat (currentHandMemoryLength c)) (currentHandMemory c2)
                    = take (nat (currentHandMemoryLength c)) (currentHandMemory c)
                \<and> undoImplementation c2 = Some (False, c2)
          else undoImplementation c1 = Some (False, c1))"
proof -
  from playerPlays_total [OF reachable_wellFormed [OF reach] reachable_turnReady [OF reach room] slot]
  obtain c1 where play: "playerPlays i c = Some c1" by blast
  show ?thesis
    by (rule exI [of _ c1]) (rule conjI [OF play undo_restores_move [OF reach lvl slot play]])
qed

section \<open>Card conservation in a game driven by the rules\<close>

lemma held_none: "list_all (\<lambda>p. p = None) xs \<Longrightarrow> held xs = 0"
  by (induction xs) (auto simp: held_def)

lemma snapshotFits_cong:
  "undoState c' = undoState c \<Longrightarrow> currentCard c' = currentCard c
   \<Longrightarrow> snapshotFits c' = snapshotFits c"
  by (simp add: snapshotFits_def snapshotTotal_def)

lemma conservationInv_playerPlays:
  assumes inv: "conservationInv c" and turn: "gameState c \<noteq> StatePileCaptured"
    and play: "playerPlays i c = Some c'"
  shows "conservationInv c'"
proof -
  from inv turn have ready: "dealReady c" and total: "cardTotal c = 52"
    by (simp_all add: conservationInv_def conserved_def DeckSize_def)
  from playerPlays_cases [OF play] obtain c1 where
    f: "if level c \<noteq> LevelAdvanced then saveUndoState c = Some c1 else c1 = c"
    and i: "0 \<le> i" "i < int (length (playerCards c))"
    and d: "(playerCards c ! nat i = None \<and> c' = c1)
            \<or> (\<exists>crd c2. playerCards c ! nat i = Some crd
                 \<and> processTurn (Some crd) Player
                      (c1\<lparr>lastPlayedPlayerCard := i,
                          playerCards := (playerCards c)[nat i := None]\<rparr>) = Some c2
                 \<and> c' = c2\<lparr>isInitialPile := False\<rparr>)"
    by blast
  have f1: "c1 = c\<lparr>undoState := undoState c1\<rparr>"
    using f saveUndoState_frame(1) [of c c1] by (cases "level c = LevelAdvanced") simp_all
  have k1: "cardTotal c1 = 52" "dealReady c1" "gameState c1 \<noteq> StatePileCaptured"
    "cpuCards c1 = cpuCards c" "deck c1 = deck c"
    using total ready turn by (subst f1, simp add: cardTotal_def dealReady_def)+
  from d show ?thesis
  proof
    assume "playerCards c ! nat i = None \<and> c' = c1"
    with k1 show ?thesis by (simp add: conservationInv_def conserved_def DeckSize_def)
  next
    assume "\<exists>crd c2. playerCards c ! nat i = Some crd
                 \<and> processTurn (Some crd) Player
                      (c1\<lparr>lastPlayedPlayerCard := i,
                          playerCards := (playerCards c)[nat i := None]\<rparr>) = Some c2
                 \<and> c' = c2\<lparr>isInitialPile := False\<rparr>"
    then obtain crd c2 where slot: "playerCards c ! nat i = Some crd"
      and pt: "processTurn (Some crd) Player
                 (c1\<lparr>lastPlayedPlayerCard := i, playerCards := (playerCards c)[nat i := None]\<rparr>)
               = Some c2"
      and e: "c' = c2\<lparr>isInitialPile := False\<rparr>" by blast
    let ?s2 = "c1\<lparr>lastPlayedPlayerCard := i, playerCards := (playerCards c)[nat i := None]\<rparr>"
    have lt: "nat i < length (playerCards c)" using i by linarith
    have h: "held ((playerCards c)[nat i := None]) = held (playerCards c) - 1"
      using held_update_None [OF lt slot] .
    have "cardTotal ?s2 = cardTotal c - 1"
      by (subst f1) (simp add: cardTotal_def h)
    then have t2: "cardTotal ?s2 = 51" using total by simp
    note p = processTurn_cardTotal [OF pt]
    have "dealReady c2"
      using p(2,3,4) ready k1 by (simp add: dealReady_def)
    moreover have "conserved c2"
      using p(1) t2 by (simp add: conserved_def DeckSize_def)
    ultimately show ?thesis
      using e by (simp add: conservationInv_def conserved_def dealReady_def cardTotal_def)
  qed
qed

lemma conservationInv_cpuPlays:
  assumes inv: "conservationInv c" and turn: "gameState c \<noteq> StatePileCaptured"
    and play: "cpuPlays c = Some c'"
  shows "conservationInv c'"
  using play
proof (cases rule: cpuPlays_cases)
  case idle
  with inv show ?thesis by simp
next
  case (missed pos idx)
  with inv show ?thesis
    by (simp add: conservationInv_def conserved_def dealReady_def cardTotal_def)
next
  case (played pos idx crd c4)
  from inv turn have ready: "dealReady c" and total: "cardTotal c = 52"
    by (simp_all add: conservationInv_def conserved_def DeckSize_def)
  let ?s = "c\<lparr>rngPos := pos, lastPlayedCPUCardIdx := idx,
              cpuCards := (cpuCards c)[nat idx := None]\<rparr>"
  have lt: "nat idx < length (cpuCards c)" using played(1,2) by linarith
  have h: "held ((cpuCards c)[nat idx := None]) = held (cpuCards c) - 1"
    using held_update_None [OF lt played(3)] .
  have t2: "cardTotal ?s = 51" using total by (simp add: cardTotal_def h)
  note p = processTurn_cardTotal [OF played(4)]
  have "dealReady c4"
    using p(2,3,4) ready by (simp add: dealReady_def)
  moreover have "conserved c4"
    using p(1) t2 by (simp add: conserved_def DeckSize_def)
  ultimately show ?thesis
    using played(5) by (simp add: conservationInv_def conserved_def dealReady_def cardTotal_def)
qed

lemma conservationInv_finalizeCapture:
  assumes "conservationInv c" "gameState c = StatePileCaptured \<or> cardsOnTable c = 0"
  shows "conservationInv (finalizeCapture c)"
  using assms
  by (auto simp: conservationInv_def conserved_def dealReady_def cardTotal_def
      finalizeCapture_def Let_def split: if_splits)

lemma conservationInv_check_even_hands:
  assumes inv: "conservationInv c" and st: "gameState c \<noteq> StatePileCaptured"
    and hands: "\<not> isHandFinished c \<or> held (cpuCards c) = 0"
    and chk: "checkEndOfHand c = Some c'"
  shows "conservationInv c'"
proof (cases "gameState c = StateGameOver \<or> \<not> isHandFinished c")
  case True
  with chk have "c' = c" by (auto simp: checkEndOfHand_def split: if_splits)
  with inv show ?thesis by simp
next
  case False
  then have fin: "isHandFinished c" and ngo: "gameState c \<noteq> StateGameOver" by simp_all
  from inv st have ready: "dealReady c" and total: "cardTotal c = 52"
    by (simp_all add: conservationInv_def conserved_def DeckSize_def)
  have hp: "held (playerCards c) = 0" using fin by (simp add: isHandFinished_def held_none)
  have hc: "held (cpuCards c) = 0" using hands fin by simp
  show ?thesis
  proof (cases "currentCard c = DeckSize")
    case True
    with chk fin ngo have eog: "handleEndOfGame c = Some c'" by (simp add: checkEndOfHand_def)
    then obtain c1 where a: "awardFinalPile c = Some c1"
      and g: "gameState c' = StateGameOver" "playerCards c' = playerCards c1"
        "cpuCards c' = cpuCards c1" "deck c' = deck c1" "cardTotal c' = cardTotal c1"
      by (auto simp: handleEndOfGame_def Let_def cardTotal_def split: Option.bind_splits if_splits)
    from a have "playerCards c1 = playerCards c \<and> cpuCards c1 = cpuCards c \<and> deck c1 = deck c
                 \<and> cardTotal c1 = cardTotal c"
      by (auto simp: awardFinalPile_def Let_def cardTotal_def split: Option.bind_splits if_splits)
    with g ready total show ?thesis
      by (simp add: conservationInv_def conserved_def dealReady_def DeckSize_def)
  next
    case False
    with chk fin ngo have "handleEndOfHand c = Some c'" by (simp add: checkEndOfHand_def)
    then obtain c1 where dl: "deal c = Some c1" and e: "c' = c1\<lparr>gameState := StatePlayerTurn\<rparr>"
      by (auto simp: handleEndOfHand_def split: Option.bind_splits)
    show ?thesis
    proof (cases "currentCard c < DeckSize")
      case False
      with dl have "c1 = c" by (simp add: deal_def)
      with e inv st show ?thesis
        by (simp add: conservationInv_def conserved_def dealReady_def cardTotal_def)
    next
      case True
      note d = deal_effect [OF dl ready True]
      have "cardTotal c1 = cardTotal c"
        using d hp hc by (simp add: cardTotal_def)
      with d(1) total e show ?thesis
        by (simp add: conservationInv_def conserved_def dealReady_def cardTotal_def DeckSize_def)
    qed
  qed
qed

lemma conservationInv_checkEndOfHand:
  assumes inv: "conservationInv c"
    and hands: "gameState c = StateGameOver \<or> \<not> isHandFinished c
                \<or> (gameState c \<noteq> StatePileCaptured \<and> held (cpuCards c) = 0)"
    and chk: "checkEndOfHand c = Some c'"
  shows "conservationInv c'"
proof (cases "gameState c = StateGameOver \<or> \<not> isHandFinished c")
  case True
  with chk have "c' = c" by (auto simp: checkEndOfHand_def split: if_splits)
  with inv show ?thesis by simp
next
  case False
  with hands have st: "gameState c \<noteq> StatePileCaptured" and hc: "held (cpuCards c) = 0"
    by simp_all
  from hc have "\<not> isHandFinished c \<or> held (cpuCards c) = 0" by simp
  from conservationInv_check_even_hands [OF inv st this chk] show ?thesis .
qed

lemma playerPlays_snapshot:
  assumes inv: "conservationInv c" and turn: "gameState c \<noteq> StatePileCaptured"
    and play: "playerPlays i c = Some c'"
  shows "currentCard c' = currentCard c"
    and "level c \<noteq> LevelAdvanced \<Longrightarrow> snapshotFits c'"
    and "level c = LevelAdvanced \<Longrightarrow> undoState c' = undoState c"
proof -
  from inv turn have ready: "dealReady c" and total: "cardTotal c = 52"
    by (simp_all add: conservationInv_def conserved_def DeckSize_def)
  from playerPlays_cases [OF play] obtain c1 where
    f: "if level c \<noteq> LevelAdvanced then saveUndoState c = Some c1 else c1 = c"
    and d: "(playerCards c ! nat i = None \<and> c' = c1)
            \<or> (\<exists>crd c2. playerCards c ! nat i = Some crd
                 \<and> processTurn (Some crd) Player
                      (c1\<lparr>lastPlayedPlayerCard := i,
                          playerCards := (playerCards c)[nat i := None]\<rparr>) = Some c2
                 \<and> c' = c2\<lparr>isInitialPile := False\<rparr>)"
    by blast
  have f1: "c1 = c\<lparr>undoState := undoState c1\<rparr>"
    using f saveUndoState_frame(1) [of c c1] by (cases "level c = LevelAdvanced") simp_all
  have k1: "currentCard c1 = currentCard c" using arg_cong [OF f1, of currentCard] by simp
  from d have k: "undoState c' = undoState c1 \<and> currentCard c' = currentCard c"
  proof
    assume "playerCards c ! nat i = None \<and> c' = c1"
    with k1 show ?thesis by simp
  next
    assume "\<exists>crd c2. playerCards c ! nat i = Some crd
                 \<and> processTurn (Some crd) Player
                      (c1\<lparr>lastPlayedPlayerCard := i,
                          playerCards := (playerCards c)[nat i := None]\<rparr>) = Some c2
                 \<and> c' = c2\<lparr>isInitialPile := False\<rparr>"
    then obtain crd c2 where
      pt: "processTurn (Some crd) Player
                 (c1\<lparr>lastPlayedPlayerCard := i, playerCards := (playerCards c)[nat i := None]\<rparr>)
               = Some c2"
      and e: "c' = c2\<lparr>isInitialPile := False\<rparr>" by blast
    show ?thesis using processTurn_pile(3,4) [OF pt] k1 e by simp
  qed
  from k show "currentCard c' = currentCard c" by simp
  show "undoState c' = undoState c" if "level c = LevelAdvanced"
    using that f k by simp
  show "snapshotFits c'" if "level c \<noteq> LevelAdvanced"
  proof -
    from that f have sv: "saveUndoState c = Some c1" by simp
    note su = saveUndoState_frame(2) [OF sv]
    from ready have len: "length (playerCards c) = 4" "length (cpuCards c) = 4"
      by (simp_all add: dealReady_def)
    have hands: "copy_into (replicate (nat HandSize) None) (playerCards c) = playerCards c"
      "copy_into (replicate (nat HandSize) None) (cpuCards c) = cpuCards c"
      using len by (simp_all add: copy_into_same_length HandSize_def)
    have "snapshotTotal c' = cardTotal c"
      using k hands by (simp add: snapshotTotal_def cardTotal_def su)
    with total k hands len show ?thesis
      by (simp add: snapshotFits_def su DeckSize_def)
  qed
qed

lemma cpuPlays_snapshot:
  assumes "cpuPlays c = Some c'"
  shows "undoState c' = undoState c \<and> currentCard c' = currentCard c"
  using assms
proof (cases rule: cpuPlays_cases)
  case idle
  then show ?thesis by simp
next
  case (missed pos idx)
  then show ?thesis by simp
next
  case (played pos idx crd c4)
  show ?thesis using processTurn_pile(3,4) [OF played(4)] played(5) by simp
qed

lemma checkEndOfHand_snapshot:
  assumes "checkEndOfHand c = Some c'"
  shows "undoState c' = undoState c"
proof -
  have eog: "undoState d' = undoState c" if "handleEndOfGame c = Some d'" for d'
    using that
    by (auto simp: handleEndOfGame_def awardFinalPile_def Let_def
        split: Option.bind_splits if_splits)
  have eoh: "undoState d' = undoState c" if "handleEndOfHand c = Some d'" for d'
    using that deal_keeps_pile(5) [of c]
    by (auto simp: handleEndOfHand_def split: Option.bind_splits)
  from assms eog eoh show ?thesis
    by (auto simp: checkEndOfHand_def split: if_splits)
qed

lemma conservationInv_undoImplementation:
  assumes inv: "conservationInv c"
    and ok: "\<not> canUndo c \<or> (gameState c \<noteq> StatePileCaptured \<and> snapshotFits c)"
    and un: "undoImplementation c = Some (ok', c')"
  shows "conservationInv c'" and "undoState c' = undoState c"
    and "currentCard c' = currentCard c"
proof -
  have "conservationInv c' \<and> undoState c' = undoState c \<and> currentCard c' = currentCard c"
  proof (cases "canUndo c")
    case False
    with un inv show ?thesis by (simp add: undoImplementation_def)
  next
    case True
    with ok have st: "gameState c \<noteq> StatePileCaptured" and fits: "snapshotFits c" by simp_all
    from True un have
      e: "cardsOnTable c' = us_cardsOnTable (undoState c)"
        "playerCards c' = copy_into (playerCards c) (us_playerCards (undoState c))"
        "cpuCards c' = copy_into (cpuCards c) (us_cpuCards (undoState c))"
        "cardsCollectedByPlayer c' = us_cardsCollectedByPlayer (undoState c)"
        "cardsCollectedByCPU c' = us_cardsCollectedByCPU (undoState c)"
        "deck c' = deck c" "undoState c' = undoState c" "currentCard c' = currentCard c"
        "gameState c' = gameState c"
      by (auto simp: undoImplementation_def Let_def split: Option.bind_splits)
    from inv have ready: "dealReady c" by (simp add: conservationInv_def)
    from ready fits have hands: "playerCards c' = us_playerCards (undoState c)"
      "cpuCards c' = us_cpuCards (undoState c)"
      by (simp_all add: e dealReady_def snapshotFits_def copy_into_same_length)
    have "cardTotal c' = snapshotTotal c"
      using e hands by (simp add: cardTotal_def snapshotTotal_def)
    then have "conserved c'"
      using fits st e by (simp add: conserved_def snapshotFits_def)
    moreover have "dealReady c'"
      using ready fits hands e by (simp add: dealReady_def snapshotFits_def)
    ultimately show ?thesis using e by (simp add: conservationInv_def)
  qed
  then show "conservationInv c'" and "undoState c' = undoState c"
    and "currentCard c' = currentCard c" by simp_all
qed

lemma conducted_invariant:
  "conducted b c \<Longrightarrow> conservationInv c \<and> (b \<longrightarrow> snapshotFits c)"
proof (induction rule: conducted.induct)
  case (started c0 c)
  have "conservationInv c"
    using StartGame_started [OF started.hyps] by (rule conjunct1)
  then show ?case by simp
next
  case (human b c i c')
  have inv: "conservationInv c" using human.IH by (rule conjunct1)
  have fits: "b \<longrightarrow> snapshotFits c" using human.IH by (rule conjunct2)
  note s = playerPlays_snapshot [OF inv human.hyps(2,3)]
  have a: "conservationInv c'"
    using inv human.hyps(2,3) by (rule conservationInv_playerPlays)
  have "snapshotFits c'" if "b \<or> level c \<noteq> LevelAdvanced"
  proof (cases "level c = LevelAdvanced")
    case False
    then show ?thesis by (rule s(2))
  next
    case True
    with that fits have "snapshotFits c" by blast
    moreover have "snapshotFits c' = snapshotFits c"
      using s(3) [OF True] s(1) by (rule snapshotFits_cong)
    ultimately show ?thesis by blast
  qed
  with a show ?case by blast
next
  case (computer b c c')
  have inv: "conservationInv c" using computer.IH by (rule conjunct1)
  have fits: "b \<longrightarrow> snapshotFits c" using computer.IH by (rule conjunct2)
  note s = cpuPlays_snapshot [OF computer.hyps(3)]
  have a: "conservationInv c'"
    using inv computer.hyps(2,3) by (rule conservationInv_cpuPlays)
  have "snapshotFits c' = snapshotFits c"
    using s [THEN conjunct1] s [THEN conjunct2] by (rule snapshotFits_cong)
  with a fits show ?case by blast
next
  case (finalized b c)
  have inv: "conservationInv c" using finalized.IH by (rule conjunct1)
  have fits: "b \<longrightarrow> snapshotFits c" using finalized.IH by (rule conjunct2)
  have a: "conservationInv (finalizeCapture c)"
    using inv finalized.hyps(2) by (rule conservationInv_finalizeCapture)
  have "snapshotFits (finalizeCapture c) = snapshotFits c"
    by (rule snapshotFits_cong) (simp_all add: finalizeCapture_def Let_def)
  with a fits show ?case by blast
next
  case (checked b c c')
  have inv: "conservationInv c" using checked.IH by (rule conjunct1)
  have fits: "b \<longrightarrow> snapshotFits c" using checked.IH by (rule conjunct2)
  have a: "conservationInv c'"
    using inv checked.hyps(2,3) by (rule conservationInv_checkEndOfHand)
  have "snapshotFits c'" if t: "b \<and> currentCard c' = currentCard c"
  proof -
    have "snapshotFits c' = snapshotFits c"
      using checkEndOfHand_snapshot [OF checked.hyps(3)] t [THEN conjunct2]
      by (rule snapshotFits_cong)
    with t fits show ?thesis by blast
  qed
  with a show ?case by blast
next
  case (undone b c ok c')
  have inv: "conservationInv c" using undone.IH by (rule conjunct1)
  have fits: "b \<longrightarrow> snapshotFits c" using undone.IH by (rule conjunct2)
  have g: "\<not> canUndo c \<or> (gameState c \<noteq> StatePileCaptured \<and> snapshotFits c)"
    using undone.hyps(2) fits by blast
  note u = conservationInv_undoImplementation [OF inv g undone.hyps(3)]
  have "snapshotFits c' = snapshotFits c"
    using u(2,3) by (rule snapshotFits_cong)
  with u(1) fits show ?case by blast
qed

text \<open>
  C1, as the code has it. In every state of a game driven by the rules, the undealt cards,
  the cards in both hands, the table pile and the cards collected by both sides add up to
  52, except during \<open>StatePileCaptured\<close>, where the captured pile is already credited to
  the scorer and still lies on the table, so the sum is 52 plus the pile. The game may
  include undo, as long as the snapshot it installs was taken in the hand being played.
\<close>

theorem conducted_conserved:
  assumes "conducted b c"
  shows "cardTotal c =
           (if gameState c = StatePileCaptured then DeckSize + cardsOnTable c else DeckSize)"
  using conducted_invariant [OF assms] by (simp add: conservationInv_def conserved_def)

section \<open>What undo and finalizeCapture do not read\<close>

text \<open>
  \<open>undoImplementation\<close> tests \<open>canUndo\<close> and nothing else: at every level it returns true
  and installs the retained snapshot whenever the flag is set. \<open>cpuPlays\<close> sets the flag
  at every level whenever it plays a card.
\<close>

lemma undo_whenever_flag_set:
  assumes "reachable c" "canUndo c"
  shows "\<exists>c'. undoImplementation c = Some (True, c')
           \<and> cardsOnTable c' = us_cardsOnTable (undoState c)
           \<and> playerPoint c' = us_playerPoint (undoState c)
           \<and> cpuPoint c' = us_cpuPoint (undoState c)
           \<and> level c' = level c"
proof -
  have wf: "wellFormed c" using reachable_wellFormed [OF assms(1)] .
  from wf have a: "0 \<le> us_cardsOnTable (undoState c)"
    and b: "0 \<le> us_currentHandMemoryLength (undoState c)"
    by (simp_all add: wellFormed_def)
  from nilOut_total [OF a] obtain tc where
    tc: "nilOut (copy_into (tableCards c) (us_tableCards (undoState c)))
           (us_cardsOnTable (undoState c)) = Some tc" by blast
  from nilOut_total [OF b] obtain hm where
    hm: "nilOut (copy_into (currentHandMemory c) (us_currentHandMemory (undoState c)))
           (us_currentHandMemoryLength (undoState c)) = Some hm" by blast
  show ?thesis using assms(2) tc hm by (simp add: undoImplementation_def Let_def)
qed

lemma cpuPlays_allows_undo:
  assumes "cpuPlays c = Some c'" "cardsOnTable c' \<noteq> cardsOnTable c"
  shows "canUndo c'"
  using assms(1)
proof (cases rule: cpuPlays_cases)
  case idle
  with assms(2) show ?thesis by simp
next
  case (missed pos idx)
  with assms(2) show ?thesis by simp
next
  case (played pos idx crd c4)
  then show ?thesis by simp
qed

text \<open>
  \<open>finalizeCapture\<close> does not read \<open>lastScorer\<close>: unless the game is over the next state
  is \<open>StatePlayerTurn\<close>, whoever captured.
\<close>

lemma finalizeCapture_turn:
  "gameState (finalizeCapture c) =
     (if gameState c = StateGameOver then StateGameOver else StatePlayerTurn)"
  "lastScorer (finalizeCapture c) = lastScorer c"
  "finalizeCapture (c\<lparr>lastScorer := p\<rparr>) = (finalizeCapture c)\<lparr>lastScorer := p\<rparr>"
  by (simp_all add: finalizeCapture_def Let_def)

section \<open>The example games\<close>

lemma performAll_append:
  "performAll (xs @ ys) c = performAll xs c \<bind> performAll ys"
  by (induction xs arbitrary: c) (auto split: option.splits)

lemma reachable_perform: "reachable c \<Longrightarrow> perform cmd c = Some c' \<Longrightarrow> reachable c'"
  by (cases cmd) (auto intro: reachable.intros)

lemma reachable_performAll: "reachable c \<Longrightarrow> performAll script c = Some c' \<Longrightarrow> reachable c'"
proof (induction script arbitrary: c)
  case Nil
  then show ?case by simp
next
  case (Cons cmd script)
  then show ?case by (auto split: option.splits dest: reachable_perform)
qed

lemma reachable_engineAfter: "engineAfter script \<noteq> None \<Longrightarrow> reachable (the (engineAfter script))"
  using reachable_performAll [OF reachable.fresh, of script identityDraws]
  by (auto simp: engineAfter_def)

lemma engineAfter_step:
  "engineAfter script \<noteq> None \<Longrightarrow>
   engineAfter (script @ [cmd]) = perform cmd (the (engineAfter script))"
  by (auto simp: engineAfter_def performAll_append split: option.splits)

lemma computed_started:
  "case engineAfter [CmdSetLevel 1, CmdStart] of None \<Rightarrow> False
    | Some c \<Rightarrow> gameState c = StatePlayerTurn \<and> level c = LevelBeginner
        \<and> playerCards c ! 0 \<noteq> None
        \<and> playerPlays 4 c = None
        \<and> map_option fst (playerPlays 0 c \<bind> undoImplementation) = Some False"
  by code_simp

lemma computed_start_ok: "map_option fst (StartGame (SetLevel 1 (NewCasino identityDraws))) = Some True"
  by code_simp

lemma computed_afterPlayer:
  "case engineAfter [CmdSetLevel 1, CmdStart, CmdPlayer 0] of None \<Rightarrow> False
    | Some c \<Rightarrow> gameState c = StateCPUTurn \<and> cardsOnTable c = 5
        \<and> map_option cardsOnTable (playerPlays 1 c) = Some 6"
  by code_simp

lemma computed_captured:
  "case engineAfter [CmdSetLevel 1, CmdStart, CmdPlayer 0, CmdCPU] of None \<Rightarrow> False
    | Some c \<Rightarrow> gameState c = StatePileCaptured \<and> lastScorer c = CPU \<and> cardTotal c = 58
        \<and> cardsOnTable c = 6
        \<and> gameState (finalizeCapture c) = StatePlayerTurn"
  by code_simp

lemma computed_resumed:
  "case engineAfter [CmdSetLevel 1, CmdStart, CmdPlayer 0, CmdCPU, CmdFinalize] of None \<Rightarrow> False
    | Some c \<Rightarrow> gameState c = StatePlayerTurn \<and> playerCards c ! 0 = None \<and> canUndo c
        \<and> us_cardsOnTable (undoState c) = 4
        \<and> map_option (us_cardsOnTable \<circ> undoState) (playerPlays 0 c) = Some 0
        \<and> playerPlays 4 c = None"
  by code_simp

lemma computed_advanced:
  "case engineAfter [CmdSetLevel 3, CmdStart, CmdPlayer 0, CmdCPU] of None \<Rightarrow> False
    | Some c \<Rightarrow> level c = LevelAdvanced \<and> cpuPoint c = 2 \<and> cardsOnTable c = 6
        \<and> map_option fst (undoImplementation c) = Some True
        \<and> map_option (cpuPoint \<circ> snd) (undoImplementation c) = Some 0
        \<and> map_option (cardsOnTable \<circ> snd) (undoImplementation c) = Some 0"
  by code_simp

lemma computed_levelCleared:
  "case engineAfter [CmdSetLevel 1, CmdStart, CmdSetLevel 0] of None \<Rightarrow> False
    | Some c \<Rightarrow> level c = LevelNotSelected \<and> gameState c = StatePlayerTurn
        \<and> map_option (gameState \<circ> snd) (StartGame c) = Some StateNotStarted"
  by code_simp

lemma computed_secondRound:
  "case engineAfter [CmdSetLevel 1, CmdStart, CmdPlayer 0, CmdCPU, CmdFinalize, CmdPlayer 1, CmdCPU] of None \<Rightarrow> False
    | Some c \<Rightarrow> level c = LevelBeginner \<and> gameState c = StatePlayerTurn \<and> canUndo c
        \<and> playerCards c ! 2 = Some sevenOfHearts \<and> cardsOnTable c = 2"
  by code_simp

lemma computed_secondMove:
  "case engineAfter [CmdSetLevel 1, CmdStart, CmdPlayer 0, CmdCPU, CmdFinalize, CmdPlayer 1] of None \<Rightarrow> False
    | Some c \<Rightarrow> gameState c = StateCPUTurn"
  by code_simp

lemma computed_thirdMove:
  "case engineAfter [CmdSetLevel 1, CmdStart, CmdPlayer 0, CmdCPU, CmdFinalize, CmdPlayer 1, CmdCPU, CmdPlayer 2] of None \<Rightarrow> False
    | Some c \<Rightarrow> gameState c = StateCPUTurn \<and> canUndo c"
  by code_simp

lemma computed_thirdUndone:
  "case engineAfter [CmdSetLevel 1, CmdStart, CmdPlayer 0, CmdCPU, CmdFinalize, CmdPlayer 1, CmdCPU, CmdPlayer 2, CmdUndo] of None \<Rightarrow> False
    | Some c \<Rightarrow> gameState c = StateCPUTurn \<and> cardTotal c = 52 \<and> cardsOnTable c = 2"
  by code_simp

lemma computed_nextHandUndone:
  "case engineAfter [CmdSetLevel 1, CmdStart, CmdPlayer 0, CmdCPU, CmdFinalize, CmdPlayer 1, CmdCPU, CmdPlayer 2, CmdCPU, CmdPlayer 3, CmdCPU, CmdCheck, CmdUndo] of None \<Rightarrow> False
    | Some c \<Rightarrow> gameState c = StatePlayerTurn \<and> cardTotal c = 44"
  by code_simp

lemma started_facts:
  "engineAfter [CmdSetLevel 1, CmdStart] = Some gameStarted"
  "gameState gameStarted = StatePlayerTurn" "level gameStarted = LevelBeginner"
  "playerCards gameStarted ! 0 \<noteq> None" "playerPlays 4 gameStarted = None"
  "map_option fst (playerPlays 0 gameStarted \<bind> undoImplementation) = Some False"
  using computed_started unfolding gameStarted_def by (auto split: option.splits)

lemma afterPlayer_facts:
  "engineAfter [CmdSetLevel 1, CmdStart, CmdPlayer 0] = Some gameAfterPlayer"
  "gameState gameAfterPlayer = StateCPUTurn" "cardsOnTable gameAfterPlayer = 5"
  "map_option cardsOnTable (playerPlays 1 gameAfterPlayer) = Some 6"
  using computed_afterPlayer unfolding gameAfterPlayer_def by (auto split: option.splits)

lemma captured_facts:
  "engineAfter [CmdSetLevel 1, CmdStart, CmdPlayer 0, CmdCPU] = Some gameCaptured"
  "gameState gameCaptured = StatePileCaptured" "lastScorer gameCaptured = CPU"
  "cardTotal gameCaptured = 58" "cardsOnTable gameCaptured = 6"
  "gameState (finalizeCapture gameCaptured) = StatePlayerTurn"
  using computed_captured unfolding gameCaptured_def by (auto split: option.splits)

lemma resumed_facts:
  "engineAfter [CmdSetLevel 1, CmdStart, CmdPlayer 0, CmdCPU, CmdFinalize] = Some gameResumed"
  "gameState gameResumed = StatePlayerTurn" "playerCards gameResumed ! 0 = None"
  "canUndo gameResumed" "us_cardsOnTable (undoState gameResumed) = 4"
  "map_option (us_cardsOnTable \<circ> undoState) (playerPlays 0 gameResumed) = Some 0"
  "playerPlays 4 gameResumed = None"
  using computed_resumed unfolding gameResumed_def by (auto split: option.splits)

lemma advanced_facts:
  "engineAfter [CmdSetLevel 3, CmdStart, CmdPlayer 0, CmdCPU] = Some advancedCaptured"
  "level advancedCaptured = LevelAdvanced" "cpuPoint advancedCaptured = 2"
  "cardsOnTable advancedCaptured = 6"
  "map_option fst (undoImplementation advancedCaptured) = Some True"
  "map_option (cpuPoint \<circ> snd) (undoImplementation advancedCaptured) = Some 0"
  "map_option (cardsOnTable \<circ> snd) (undoImplementation advancedCaptured) = Some 0"
  using computed_advanced unfolding advancedCaptured_def by (auto split: option.splits)

lemma levelCleared_facts:
  "engineAfter [CmdSetLevel 1, CmdStart, CmdSetLevel 0] = Some levelCleared"
  "level levelCleared = LevelNotSelected" "gameState levelCleared = StatePlayerTurn"
  "map_option (gameState \<circ> snd) (StartGame levelCleared) = Some StateNotStarted"
  using computed_levelCleared unfolding levelCleared_def by (auto split: option.splits)

lemma secondRound_facts:
  "engineAfter [CmdSetLevel 1, CmdStart, CmdPlayer 0, CmdCPU, CmdFinalize, CmdPlayer 1, CmdCPU]
     = Some gameSecondRound"
  "level gameSecondRound = LevelBeginner" "gameState gameSecondRound = StatePlayerTurn"
  "canUndo gameSecondRound" "playerCards gameSecondRound ! 2 = Some sevenOfHearts"
  "cardsOnTable gameSecondRound = 2"
  using computed_secondRound unfolding gameSecondRound_def by (auto split: option.splits)

lemma secondMove_facts:
  "engineAfter [CmdSetLevel 1, CmdStart, CmdPlayer 0, CmdCPU, CmdFinalize, CmdPlayer 1]
     = Some gameSecondMove"
  "gameState gameSecondMove = StateCPUTurn"
  using computed_secondMove unfolding gameSecondMove_def by (auto split: option.splits)

lemma thirdMove_state:
  "engineAfter [CmdSetLevel 1, CmdStart, CmdPlayer 0, CmdCPU, CmdFinalize, CmdPlayer 1, CmdCPU,
     CmdPlayer 2] = Some gameThirdMove"
  "gameState gameThirdMove = StateCPUTurn" "canUndo gameThirdMove"
  using computed_thirdMove unfolding gameThirdMove_def by (auto split: option.splits)

lemma thirdMove_facts:
  "playerPlays 2 gameSecondRound = Some gameThirdMove"
proof -
  have "engineAfter ([CmdSetLevel 1, CmdStart, CmdPlayer 0, CmdCPU, CmdFinalize, CmdPlayer 1, CmdCPU]
          @ [CmdPlayer 2]) = perform (CmdPlayer 2) gameSecondRound"
    using engineAfter_step [of "[CmdSetLevel 1, CmdStart, CmdPlayer 0, CmdCPU, CmdFinalize, CmdPlayer 1, CmdCPU]" "CmdPlayer 2"]
      secondRound_facts(1) by simp
  with thirdMove_state(1) show ?thesis by simp
qed

lemma thirdUndone_facts:
  "engineAfter [CmdSetLevel 1, CmdStart, CmdPlayer 0, CmdCPU, CmdFinalize, CmdPlayer 1, CmdCPU,
     CmdPlayer 2, CmdUndo] = Some gameThirdUndone"
  "gameState gameThirdUndone = StateCPUTurn" "cardTotal gameThirdUndone = 52"
  "cardsOnTable gameThirdUndone = 2"
  using computed_thirdUndone unfolding gameThirdUndone_def by (auto split: option.splits)

lemma nextHandUndone_facts:
  "engineAfter [CmdSetLevel 1, CmdStart, CmdPlayer 0, CmdCPU, CmdFinalize, CmdPlayer 1, CmdCPU,
     CmdPlayer 2, CmdCPU, CmdPlayer 3, CmdCPU, CmdCheck, CmdUndo] = Some gameNextHandUndone"
  "gameState gameNextHandUndone = StatePlayerTurn" "cardTotal gameNextHandUndone = 44"
  using computed_nextHandUndone unfolding gameNextHandUndone_def by (auto split: option.splits)

lemma reachable_script: "engineAfter script = Some c \<Longrightarrow> reachable c"
  using reachable_engineAfter [of script] by simp

lemma conducted_examples:
  "conducted True gameCaptured" "conducted True gameThirdUndone"
proof -
  have s: "StartGame (SetLevel 1 (NewCasino identityDraws)) = Some (True, gameStarted)"
    using started_facts(1) computed_start_ok by (auto simp: engineAfter_def)
  have p0: "playerPlays 0 gameStarted = Some gameAfterPlayer"
    using engineAfter_step [of "[CmdSetLevel 1, CmdStart]" "CmdPlayer 0"]
      started_facts(1) afterPlayer_facts(1) by simp
  have c0: "cpuPlays gameAfterPlayer = Some gameCaptured"
    using engineAfter_step [of "[CmdSetLevel 1, CmdStart, CmdPlayer 0]" CmdCPU]
      afterPlayer_facts(1) captured_facts(1) by simp
  have f0: "finalizeCapture gameCaptured = gameResumed"
    using engineAfter_step [of "[CmdSetLevel 1, CmdStart, CmdPlayer 0, CmdCPU]" CmdFinalize]
      captured_facts(1) resumed_facts(1) by simp
  have p1: "playerPlays 1 gameResumed = Some gameSecondMove"
    using engineAfter_step [of "[CmdSetLevel 1, CmdStart, CmdPlayer 0, CmdCPU, CmdFinalize]"
        "CmdPlayer 1"]
      resumed_facts(1) secondMove_facts(1) by simp
  have c1: "cpuPlays gameSecondMove = Some gameSecondRound"
    using engineAfter_step [of "[CmdSetLevel 1, CmdStart, CmdPlayer 0, CmdCPU, CmdFinalize,
        CmdPlayer 1]" CmdCPU]
      secondMove_facts(1) secondRound_facts(1) by simp
  have "map_option snd (undoImplementation gameThirdMove) = Some gameThirdUndone"
    using engineAfter_step [of "[CmdSetLevel 1, CmdStart, CmdPlayer 0, CmdCPU, CmdFinalize,
        CmdPlayer 1, CmdCPU, CmdPlayer 2]" CmdUndo]
      thirdMove_state(1) thirdUndone_facts(1) by simp
  then obtain ok where u: "undoImplementation gameThirdMove = Some (ok, gameThirdUndone)"
    by auto
  have r0: "reachable (SetLevel 1 (NewCasino identityDraws))"
    by (rule reachable.set_level [OF reachable.fresh])
  have g: "gameState gameStarted \<noteq> StatePileCaptured"
    "gameState gameAfterPlayer \<noteq> StatePileCaptured"
    "gameState gameResumed \<noteq> StatePileCaptured"
    "gameState gameSecondMove \<noteq> StatePileCaptured"
    "gameState gameSecondRound \<noteq> StatePileCaptured"
    "gameState gameThirdMove \<noteq> StatePileCaptured"
    by (simp_all add: started_facts(2) afterPlayer_facts(2) resumed_facts(2)
        secondMove_facts(2) secondRound_facts(3) thirdMove_state(2))
  have k0: "conducted False gameStarted" using r0 s by (rule conducted.started)
  have k1: "conducted True gameAfterPlayer"
    using conducted.human [OF k0 g(1) p0] started_facts(3) by simp
  show k2: "conducted True gameCaptured"
    using k1 g(2) c0 by (rule conducted.computer)
  have "gameState gameCaptured = StatePileCaptured \<or> cardsOnTable gameCaptured = 0"
    using captured_facts(2) by simp
  with k2 have "conducted True (finalizeCapture gameCaptured)" by (rule conducted.finalized)
  then have k3: "conducted True gameResumed" using f0 by simp
  have k4: "conducted True gameSecondMove"
    using conducted.human [OF k3 g(3) p1] by simp
  have k5: "conducted True gameSecondRound"
    using k4 g(4) c1 by (rule conducted.computer)
  have k6: "conducted True gameThirdMove"
    using conducted.human [OF k5 g(5) thirdMove_facts] by simp
  have "\<not> canUndo gameThirdMove \<or> (gameState gameThirdMove \<noteq> StatePileCaptured \<and> True)"
    using g(6) by simp
  with k6 show "conducted True gameThirdUndone" using u by (rule conducted.undone)
qed

text \<open>A Jack played on a table holding a single Jack: 20 points and 2 cards.\<close>

theorem capture_classification_witness:
  "turnReady jackTable \<and> 1 \<le> cardsOnTable jackTable
   \<and> tableCards jackTable ! nat (cardsOnTable jackTable - 1) = Some jackOfHearts
   \<and> (\<exists>c'. processTurn (Some jackOfSpades) Player jackTable = Some c'
         \<and> gameState c' = StatePileCaptured \<and> playerPoint c' = 20
         \<and> cardsCollectedByPlayer c' = 2)"
proof -
  have a: "turnReady jackTable"
    by (simp add: turnReady_def jackTable_def NewCasino_def)
  have b: "1 \<le> cardsOnTable jackTable" by (simp add: jackTable_def)
  have c: "tableCards jackTable ! nat (cardsOnTable jackTable - 1) = Some jackOfHearts"
    by (simp add: jackTable_def)
  have d: "face jackOfSpades = face jackOfHearts \<or> face jackOfSpades = ''Jack''"
    by (simp add: jackOfSpades_def jackOfHearts_def)
  have e: "cardsOnTable jackTable = 1" "scoreOf Player jackTable = 0"
    "collectedBy Player jackTable = 0" "face jackOfSpades = face jackOfHearts"
    "face jackOfSpades = ''Jack''"
    by (simp_all add: jackTable_def NewCasino_def scoreOf_def collectedBy_def
        jackOfSpades_def jackOfHearts_def)
  from capture_classification [OF a b c d, of Player] e
  have "\<exists>c'. processTurn (Some jackOfSpades) Player jackTable = Some c'
         \<and> gameState c' = StatePileCaptured \<and> playerPoint c' = 20
         \<and> cardsCollectedByPlayer c' = 2"
    by (auto simp: scoreOf_def collectedBy_def)
  with a b c show ?thesis by blast
qed

lemma computed_humanAhead:
  "case performAll humanAheadScript (NewCasino swapDraws) of None \<Rightarrow> False
    | Some c \<Rightarrow> gameState c = StatePlayerTurn \<and> cardTotal c = 52 \<and> isHandFinished c
        \<and> held (cpuCards c) = 1"
  by code_simp

lemma computed_dealtOver:
  "case performAll (humanAheadScript @ [CmdCheck]) (NewCasino swapDraws) of None \<Rightarrow> False
    | Some c \<Rightarrow> gameState c = StatePlayerTurn \<and> cardTotal c = 51"
  by code_simp

text \<open>
  Why the rules of a driven game are what they are. Each of them excludes calls after
  which the cards no longer add up:

  \<^item> undo after the next hand has been dealt restores the old hands and pile but not the
    deck cursor (44 cards);
  \<^item> \<open>checkEndOfHand\<close> looks at the human's hand alone, so after two human moves in a
    row it deals over the card the computer still holds (51 cards);
  \<^item> a card played during \<open>StatePileCaptured\<close> lands on a pile that is already credited
    (58 cards in \<open>StateCPUTurn\<close>);
  \<^item> undo during \<open>StatePileCaptured\<close> restores the pile but not the game state, and
    \<open>finalizeCapture\<close> then discards the restored pile (48 cards);
  \<^item> \<open>finalizeCapture\<close> outside \<open>StatePileCaptured\<close> discards the cards on the table
    (48 cards);
  \<^item> undo before the first human move of a game (the computer has moved and its capture
    is finalized) installs a snapshot that was never taken (47 cards);
  \<^item> \<open>checkEndOfHand\<close> during \<open>StatePileCaptured\<close> deals the next hand while the
    credited pile still lies on the table (58 cards in \<open>StatePlayerTurn\<close>).
\<close>

lemma undo_after_deal_loses_cards:
  "reachable gameNextHandUndone \<and> gameState gameNextHandUndone = StatePlayerTurn
   \<and> cardTotal gameNextHandUndone = 44"
  using reachable_script [OF nextHandUndone_facts(1)] nextHandUndone_facts(2,3) by simp

lemma check_deals_over_computer_card:
  "reachable gameHumanAhead \<and> gameState gameHumanAhead = StatePlayerTurn
   \<and> cardTotal gameHumanAhead = 52 \<and> isHandFinished gameHumanAhead
   \<and> held (cpuCards gameHumanAhead) = 1
   \<and> checkEndOfHand gameHumanAhead = Some gameDealtOver \<and> cardTotal gameDealtOver = 51"
proof -
  have a: "performAll humanAheadScript (NewCasino swapDraws) = Some gameHumanAhead"
    "gameState gameHumanAhead = StatePlayerTurn" "cardTotal gameHumanAhead = 52"
    "isHandFinished gameHumanAhead" "held (cpuCards gameHumanAhead) = 1"
    using computed_humanAhead unfolding gameHumanAhead_def by (auto split: option.splits)
  have b: "performAll (humanAheadScript @ [CmdCheck]) (NewCasino swapDraws) = Some gameDealtOver"
    "cardTotal gameDealtOver = 51"
    using computed_dealtOver unfolding gameDealtOver_def by (auto split: option.splits)
  have "checkEndOfHand gameHumanAhead = Some gameDealtOver"
    using a(1) b(1) by (auto simp: performAll_append split: option.splits)
  moreover have "reachable gameHumanAhead"
    using reachable_performAll [OF reachable.fresh a(1)] .
  ultimately show ?thesis using a b by simp
qed

lemma calls_against_the_rules:
  "map_option (\<lambda>c. (gameState c, cardTotal c))
     (engineAfter [CmdSetLevel 1, CmdStart, CmdPlayer 0, CmdCPU, CmdPlayer 1])
   = Some (StateCPUTurn, 58)"
  "map_option (\<lambda>c. (gameState c, cardTotal c))
     (engineAfter [CmdSetLevel 1, CmdStart, CmdPlayer 0, CmdCPU, CmdUndo, CmdFinalize])
   = Some (StatePlayerTurn, 48)"
  "map_option (\<lambda>c. (gameState c, cardTotal c))
     (engineAfter [CmdSetLevel 1, CmdStart, CmdFinalize])
   = Some (StatePlayerTurn, 48)"
  "map_option (\<lambda>c. (gameState c, cardTotal c))
     (engineAfter [CmdSetLevel 1, CmdStart, CmdCPU, CmdFinalize, CmdUndo])
   = Some (StatePlayerTurn, 47)"
  "map_option (\<lambda>c. (gameState c, isHandFinished c, cardsOnTable c, cardTotal c))
     (performAll lastCaptureScript (NewCasino lastCaptureDraws))
   = Some (StatePileCaptured, True, 6, 58)"
  "map_option (\<lambda>c. (gameState c, cardsOnTable c, cardTotal c))
     (performAll (lastCaptureScript @ [CmdCheck]) (NewCasino lastCaptureDraws))
   = Some (StatePlayerTurn, 6, 58)"
  by code_simp+

text \<open>
  C1 as stated fails while a capture is pending: after the computer's Jack has captured
  the pile of six, the five terms add up to 58.
\<close>

theorem captured_pile_counted_twice:
  "engineAfter [CmdSetLevel 1, CmdStart, CmdPlayer 0, CmdCPU] = Some gameCaptured
   \<and> reachable gameCaptured \<and> gameState gameCaptured = StatePileCaptured
   \<and> cardTotal gameCaptured = 58"
  using reachable_script [OF captured_facts(1)] captured_facts(1,2,4) by simp

text \<open>
  The same state is one of a game driven by the rules: 52 plus the pile of six. So is the
  state after the human's third move has been taken back by undo: 52.
\<close>

theorem conducted_conserved_witness:
  "conducted True gameCaptured \<and> gameState gameCaptured = StatePileCaptured
   \<and> cardTotal gameCaptured = DeckSize + 6
   \<and> conducted True gameThirdUndone \<and> gameState gameThirdUndone = StateCPUTurn
   \<and> cardTotal gameThirdUndone = DeckSize"
  using conducted_conserved [OF conducted_examples(1)] conducted_conserved [OF conducted_examples(2)]
    conducted_examples captured_facts(2,5) thirdUndone_facts(2) by simp

text \<open>
  C2 as stated fails on the first move of a game: the computer has not moved yet, so the
  undo right after the human's move is refused.
\<close>

theorem undo_right_after_first_move_fails:
  "engineAfter [CmdSetLevel 1, CmdStart] = Some gameStarted
   \<and> reachable gameStarted \<and> level gameStarted \<noteq> LevelAdvanced
   \<and> playerCards gameStarted ! 0 \<noteq> None
   \<and> map_option fst (playerPlays 0 gameStarted \<bind> undoImplementation) = Some False"
  using reachable_script [OF started_facts(1)] started_facts by simp

text \<open>In the second round undo is allowed, and it takes back the human's third move.\<close>

theorem undo_after_player_move_witness:
  "reachable gameSecondRound \<and> level gameSecondRound \<noteq> LevelAdvanced
   \<and> canUndo gameSecondRound
   \<and> playerCards gameSecondRound ! nat 2 = Some sevenOfHearts
   \<and> cardsOnTable gameSecondRound < 52
   \<and> playerPlays 2 gameSecondRound = Some gameThirdMove
   \<and> (\<exists>c2. undoImplementation gameThirdMove = Some (True, c2)
         \<and> playerCards c2 = playerCards gameSecondRound
         \<and> cardsOnTable c2 = cardsOnTable gameSecondRound
         \<and> undoImplementation c2 = Some (False, c2))"
proof -
  have r: "reachable gameSecondRound" using reachable_script [OF secondRound_facts(1)] .
  have l: "level gameSecondRound \<noteq> LevelAdvanced" using secondRound_facts(2) by simp
  have s: "playerCards gameSecondRound ! nat 2 = Some sevenOfHearts"
    using secondRound_facts(5) by simp
  have m: "cardsOnTable gameSecondRound < 52" using secondRound_facts(6) by simp
  from undo_after_player_move [OF r l _ _ s m] thirdMove_facts secondRound_facts(4)
  have "\<exists>c2. undoImplementation gameThirdMove = Some (True, c2)
         \<and> playerCards c2 = playerCards gameSecondRound
         \<and> cardsOnTable c2 = cardsOnTable gameSecondRound
         \<and> undoImplementation c2 = Some (False, c2)"
    by auto
  with r l s m thirdMove_facts secondRound_facts(4) show ?thesis by blast
qed

text \<open>
  C3 at the Advanced level, after one move of each side: \<open>cpuPlays\<close> has set \<open>canUndo\<close>,
  \<open>playerPlays\<close> has saved no snapshot, and undo returns true and installs the empty
  snapshot: the computer's two points and the pile of six are gone.
\<close>

theorem undo_succeeds_at_advanced:
  "engineAfter [CmdSetLevel 3, CmdStart, CmdPlayer 0, CmdCPU] = Some advancedCaptured
   \<and> reachable advancedCaptured \<and> level advancedCaptured = LevelAdvanced
   \<and> cpuPoint advancedCaptured = 2 \<and> cardsOnTable advancedCaptured = 6
   \<and> map_option fst (undoImplementation advancedCaptured) = Some True
   \<and> map_option (cpuPoint \<circ> snd) (undoImplementation advancedCaptured) = Some 0
   \<and> map_option (cardsOnTable \<circ> snd) (undoImplementation advancedCaptured) = Some 0"
  using reachable_script [OF advanced_facts(1)] advanced_facts by simp

text \<open>
  C4 as stated fails in \<open>StateCPUTurn\<close>: the human's play of an occupied slot is carried
  out.
\<close>

theorem player_plays_out_of_turn:
  "engineAfter [CmdSetLevel 1, CmdStart, CmdPlayer 0] = Some gameAfterPlayer
   \<and> reachable gameAfterPlayer \<and> gameState gameAfterPlayer = StateCPUTurn
   \<and> cardsOnTable gameAfterPlayer = 5
   \<and> map_option cardsOnTable (playerPlays 1 gameAfterPlayer) = Some 6
   \<and> playerPlays 1 gameAfterPlayer \<noteq> Some gameAfterPlayer"
proof -
  have "playerPlays 1 gameAfterPlayer \<noteq> Some gameAfterPlayer"
  proof
    assume "playerPlays 1 gameAfterPlayer = Some gameAfterPlayer"
    then have "map_option cardsOnTable (playerPlays 1 gameAfterPlayer) = Some 5"
      using afterPlayer_facts(3) by simp
    with afterPlayer_facts(4) show False by simp
  qed
  with reachable_script [OF afterPlayer_facts(1)] afterPlayer_facts show ?thesis by simp
qed

text \<open>On a fresh engine both hands are empty and neither play has an effect.\<close>

theorem plays_do_not_check_turn_witness:
  "nth_slot (playerCards (NewCasino identityDraws)) 0 = Some None
   \<and> \<not> list_ex (\<lambda>p. p \<noteq> None) (cpuCards (NewCasino identityDraws))
   \<and> playerPlays 0 (NewCasino identityDraws) = saveUndoState (NewCasino identityDraws)
   \<and> cpuPlays (NewCasino identityDraws) = Some (NewCasino identityDraws)"
proof -
  have a: "nth_slot (playerCards (NewCasino identityDraws)) 0 = Some None"
    by (simp add: NewCasino_def nth_slot_def HandSize_def)
  have b: "\<not> list_ex (\<lambda>p. p \<noteq> None) (cpuCards (NewCasino identityDraws))"
    by (simp add: NewCasino_def HandSize_def list_ex_iff)
  have c: "level (NewCasino identityDraws) \<noteq> LevelAdvanced" by (simp add: NewCasino_def)
  from plays_do_not_check_turn [where i = 0 and c = "NewCasino identityDraws" and g = StatePlayerTurn] a b c
  show ?thesis by simp
qed

text \<open>
  C5 after the first round: slot 0 is empty, the retained snapshot is the one of the
  first move (four cards on the table), and \<open>playerPlays 0\<close> replaces it by a snapshot
  of the present state (no card on the table).
\<close>

theorem empty_slot_overwrites_snapshot:
  "engineAfter [CmdSetLevel 1, CmdStart, CmdPlayer 0, CmdCPU, CmdFinalize] = Some gameResumed
   \<and> reachable gameResumed \<and> playerCards gameResumed ! 0 = None
   \<and> us_cardsOnTable (undoState gameResumed) = 4
   \<and> map_option (us_cardsOnTable \<circ> undoState) (playerPlays 0 gameResumed) = Some 0"
  using reachable_script [OF resumed_facts(1)] resumed_facts by simp

text \<open>
  C6 after a capture by the computer: \<open>finalizeCapture\<close> hands the turn to the human.
\<close>

theorem finalize_after_cpu_capture:
  "engineAfter [CmdSetLevel 1, CmdStart, CmdPlayer 0, CmdCPU] = Some gameCaptured
   \<and> reachable gameCaptured \<and> gameState gameCaptured = StatePileCaptured
   \<and> lastScorer gameCaptured = CPU
   \<and> gameState (finalizeCapture gameCaptured) = StatePlayerTurn"
  using reachable_script [OF captured_facts(1)] captured_facts by simp

text \<open>
  C9 as stated fails when the level of a running game has been set back to
  \<open>LevelNotSelected\<close>: \<open>StartGame\<close> returns false and leaves the reset engine.
\<close>

theorem StartGame_resets_running_game:
  "engineAfter [CmdSetLevel 1, CmdStart, CmdSetLevel 0] = Some levelCleared
   \<and> reachable levelCleared \<and> level levelCleared = LevelNotSelected
   \<and> gameState levelCleared = StatePlayerTurn
   \<and> map_option (gameState \<circ> snd) (StartGame levelCleared) = Some StateNotStarted
   \<and> StartGame levelCleared \<noteq> Some (False, levelCleared)"
proof -
  have "StartGame levelCleared \<noteq> Some (False, levelCleared)"
  proof
    assume "StartGame levelCleared = Some (False, levelCleared)"
    then have "map_option (gameState \<circ> snd) (StartGame levelCleared) = Some StatePlayerTurn"
      using levelCleared_facts(3) by simp
    with levelCleared_facts(4) show False by simp
  qed
  with reachable_script [OF levelCleared_facts(1)] levelCleared_facts show ?thesis by simp
qed

text \<open>There \<open>StartGame\<close> returns false with the state \<open>resetGameInternal\<close> gives.\<close>

theorem StartGame_without_level_witness:
  "reachable levelCleared \<and> level levelCleared = LevelNotSelected
   \<and> (\<exists>c'. StartGame levelCleared = Some (False, c')
         \<and> resetGameInternal levelCleared = Some c')"
  using StartGame_without_level [OF reachable_script [OF levelCleared_facts(1)] levelCleared_facts(2)]
    reachable_script [OF levelCleared_facts(1)] levelCleared_facts(2,3) by simp

text \<open>C10 as stated fails for the index 4: the hand has four slots.\<close>

theorem playerPlays_index_out_of_range:
  "engineAfter [CmdSetLevel 1, CmdStart] = Some gameStarted
   \<and> reachable gameStarted \<and> playerPlays 4 gameStarted = None"
  using reachable_script [OF started_facts(1)] started_facts(1,5) by simp

text \<open>After the first round slot 0 is empty: playing it returns, playing slot 4 panics.\<close>

theorem playerPlays_slot_check_witness:
  "reachable gameResumed \<and> playerCards gameResumed ! nat 0 = None
   \<and> (\<exists>c'. playerPlays 0 gameResumed = Some c') \<and> playerPlays 4 gameResumed = None"
  using playerPlays_slot_check [OF reachable_script [OF resumed_facts(1)], of 0]
    playerPlays_slot_check [OF reachable_script [OF resumed_facts(1)], of 4]
    reachable_script [OF resumed_facts(1)] resumed_facts(3) by simp

end
